theory Spec2Isabelle
  imports Main "HOL-Library.Word"
begin

section \<open>Integers of the Go runtime\<close>

text \<open>
  The gateway is built for 64-bit targets: Go's \<open>int\<close> and \<open>int64\<close> are 64-bit two's
  complement integers and \<open>uint64\<close> is a 64-bit unsigned integer. All three are
  \<open>64 word\<close>: \<open>+\<close> and \<open>-\<close> wrap around, \<open>sint\<close> is the signed reading,
  \<open>unat\<close> the unsigned one, and \<open><s\<close> is the signed comparison.
\<close>

type_synonym int64 = "64 word"
type_synonym uint64 = "64 word"
type_synonym go_int = "64 word"

section \<open>Backend (package strategy)\<close>

text \<open>The fields of \<open>url.URL\<close> that the gateway reads or that tell URLs apart.\<close>

record url_URL =
  Scheme :: string
  Opaque :: string
  Host :: string
  Path :: string
  RawQuery :: string
  Fragment :: string

record Backend =
  URL :: url_URL
  RawURL :: string
  Weight :: go_int
  healthy :: bool
  blocked :: bool
  activeConns :: int64
  totalRequests :: int64
  totalErrors :: int64

text \<open>
  Backends are shared through pointers (\<open>*Backend\<close>): pickers, the registry, the monitor
  and in-flight requests all hold the same objects. A pointer is an address and the heap
  maps each address to the object stored there. The lists built by \<open>NewBackends\<close> never
  hold nil.
\<close>

type_synonym ptr = nat
type_synonym heap = "ptr \<Rightarrow> Backend"

definition IsHealthy :: "heap \<Rightarrow> ptr \<Rightarrow> bool" where
  "IsHealthy h b = healthy (h b)"

definition SetHealthy :: "heap \<Rightarrow> ptr \<Rightarrow> bool \<Rightarrow> heap" where
  "SetHealthy h b v = h(b := (h b)\<lparr>healthy := v\<rparr>)"

definition IsBlocked :: "heap \<Rightarrow> ptr \<Rightarrow> bool" where
  "IsBlocked h b = blocked (h b)"

definition SetBlocked :: "heap \<Rightarrow> ptr \<Rightarrow> bool \<Rightarrow> heap" where
  "SetBlocked h b v = h(b := (h b)\<lparr>blocked := v\<rparr>)"

text \<open>
  \<open>IncConns\<close> and \<open>DecConns\<close> also return the new count; every caller discards it, so
  the model returns the heap only.
\<close>

definition IncConns :: "heap \<Rightarrow> ptr \<Rightarrow> heap" where
  "IncConns h b = h(b := (h b)\<lparr>activeConns := activeConns (h b) + 1\<rparr>)"

definition DecConns :: "heap \<Rightarrow> ptr \<Rightarrow> heap" where
  "DecConns h b = h(b := (h b)\<lparr>activeConns := activeConns (h b) - 1\<rparr>)"

definition ActiveConns :: "heap \<Rightarrow> ptr \<Rightarrow> int64" where
  "ActiveConns h b = activeConns (h b)"

definition IncRequests :: "heap \<Rightarrow> ptr \<Rightarrow> heap" where
  "IncRequests h b = h(b := (h b)\<lparr>totalRequests := totalRequests (h b) + 1\<rparr>)"

definition TotalRequests :: "heap \<Rightarrow> ptr \<Rightarrow> int64" where
  "TotalRequests h b = totalRequests (h b)"

definition IncErrors :: "heap \<Rightarrow> ptr \<Rightarrow> heap" where
  "IncErrors h b = h(b := (h b)\<lparr>totalErrors := totalErrors (h b) + 1\<rparr>)"

definition TotalErrors :: "heap \<Rightarrow> ptr \<Rightarrow> int64" where
  "TotalErrors h b = totalErrors (h b)"

text \<open>\<open>healthySubset\<close>: the healthy, non-blocked backends of a slice, in order.\<close>

definition healthySubset :: "heap \<Rightarrow> ptr list \<Rightarrow> ptr list" where
  "healthySubset h all = filter (\<lambda>b. IsHealthy h b \<and> \<not> IsBlocked h b) all"

section \<open>Pickers (package strategy)\<close>

datatype error =
    ErrNoHealthyBackend
  | ErrInvalidURL string string
  | ErrAlreadyExists string
  | ErrNotFound string
  | ErrNoBackends
  | ErrUnknownAlgorithm string

subsection \<open>RoundRobin\<close>

record RoundRobin =
  rr_backends :: "ptr list"
  counter :: uint64

definition NewRoundRobin :: "ptr list \<Rightarrow> RoundRobin" where
  "NewRoundRobin backends = \<lparr>rr_backends = backends, counter = 0\<rparr>"

text \<open>
  \<open>r.counter.Add(1)\<close> stores and returns the incremented counter; \<open>idx\<close> is that value
  minus one, in \<open>uint64\<close> arithmetic.
\<close>

definition RoundRobin_Next :: "RoundRobin \<Rightarrow> heap \<Rightarrow> (error + ptr) \<times> RoundRobin \<times> heap" where
  "RoundRobin_Next r h =
     (let hs = healthySubset h (rr_backends r) in
      if length hs = 0 then (Inl ErrNoHealthyBackend, r, h)
      else
        let c = counter r + 1;
            idx = c - 1;
            b = hs ! (unat idx mod length hs)
        in (Inr b, r\<lparr>counter := c\<rparr>, IncConns h b))"

definition RoundRobin_Done :: "RoundRobin \<Rightarrow> heap \<Rightarrow> ptr \<Rightarrow> heap" where
  "RoundRobin_Done r h b = DecConns h b"

subsection \<open>LeastConnections\<close>

record LeastConnections =
  lc_backends :: "ptr list"

definition NewLeastConnections :: "ptr list \<Rightarrow> LeastConnections" where
  "NewLeastConnections backends = \<lparr>lc_backends = backends\<rparr>"

text \<open>The loop of \<open>Next\<close>; \<open>best\<close> is nil (\<open>None\<close>) until a healthy backend is seen.\<close>

fun lc_scan :: "heap \<Rightarrow> ptr list \<Rightarrow> ptr option \<Rightarrow> ptr option" where
  "lc_scan h [] best = best"
| "lc_scan h (b # bs) best =
     (if \<not> IsHealthy h b then lc_scan h bs best
      else if (case best of None \<Rightarrow> True | Some x \<Rightarrow> ActiveConns h b <s ActiveConns h x)
        then lc_scan h bs (Some b)
      else lc_scan h bs best)"

definition LeastConnections_Next ::
    "LeastConnections \<Rightarrow> heap \<Rightarrow> (error + ptr) \<times> LeastConnections \<times> heap" where
  "LeastConnections_Next l h =
     (case lc_scan h (lc_backends l) None of
        None \<Rightarrow> (Inl ErrNoHealthyBackend, l, h)
      | Some best \<Rightarrow> (Inr best, l, IncConns h best))"

definition LeastConnections_Done :: "LeastConnections \<Rightarrow> heap \<Rightarrow> ptr \<Rightarrow> heap" where
  "LeastConnections_Done l h b = DecConns h b"

subsection \<open>WeightedRoundRobin\<close>

record wrrEntry =
  backend :: ptr
  currentWeight :: go_int

record WeightedRoundRobin =
  entries :: "wrrEntry list"

definition NewWeightedRoundRobin :: "ptr list \<Rightarrow> WeightedRoundRobin" where
  "NewWeightedRoundRobin backends =
     \<lparr>entries = map (\<lambda>b. \<lparr>backend = b, currentWeight = 0\<rparr>) backends\<rparr>"

text \<open>
  \<open>Next\<close> collects pointers to the healthy entries in a slice \<open>healthy\<close> and then works
  through them. Each entry is its own object, so a pointer to an entry is its index in
  \<open>entries\<close>. The first loop collects the healthy entries and their total weight.
\<close>

definition wrr_collect :: "heap \<Rightarrow> wrrEntry list \<Rightarrow> nat list \<times> go_int" where
  "wrr_collect h es =
     fold (\<lambda>i (hl, tot).
             if IsHealthy h (backend (es ! i))
             then (hl @ [i], tot + Weight (h (backend (es ! i))))
             else (hl, tot))
          [0..<length es] ([], 0)"

text \<open>Step 1: raise each healthy entry's \<open>currentWeight\<close> by its weight.\<close>

definition wrr_raise :: "heap \<Rightarrow> nat list \<Rightarrow> wrrEntry list \<Rightarrow> wrrEntry list" where
  "wrr_raise h hl es =
     fold (\<lambda>i es'. es'[i := (es' ! i)\<lparr>currentWeight :=
                      currentWeight (es' ! i) + Weight (h (backend (es' ! i)))\<rparr>])
          hl es"

text \<open>Step 2: the healthy entry with the highest \<open>currentWeight\<close>, starting from the first.\<close>

definition wrr_best :: "wrrEntry list \<Rightarrow> nat \<Rightarrow> nat list \<Rightarrow> nat" where
  "wrr_best es i0 rest =
     fold (\<lambda>i best. if currentWeight (es ! best) <s currentWeight (es ! i) then i else best)
          rest i0"

text \<open>
  The index of the winning entry and the new entries, or \<open>None\<close> when no entry is healthy.
  Step 3 subtracts the total from the winner.
\<close>

definition wrr_select :: "heap \<Rightarrow> wrrEntry list \<Rightarrow> (nat \<times> wrrEntry list) option" where
  "wrr_select h es =
     (case wrr_collect h es of
        ([], tot) \<Rightarrow> None
      | (i0 # rest, tot) \<Rightarrow>
          let es1 = wrr_raise h (i0 # rest) es;
              best = wrr_best es1 i0 rest;
              es2 = es1[best := (es1 ! best)\<lparr>currentWeight := currentWeight (es1 ! best) - tot\<rparr>]
          in Some (best, es2))"

definition WeightedRoundRobin_Next ::
    "WeightedRoundRobin \<Rightarrow> heap \<Rightarrow> (error + ptr) \<times> WeightedRoundRobin \<times> heap" where
  "WeightedRoundRobin_Next w h =
     (case wrr_select h (entries w) of
        None \<Rightarrow> (Inl ErrNoHealthyBackend, w, h)
      | Some (best, es2) \<Rightarrow>
          let b = backend (es2 ! best)
          in (Inr b, w\<lparr>entries := es2\<rparr>, IncConns h b))"

definition WeightedRoundRobin_Done :: "WeightedRoundRobin \<Rightarrow> heap \<Rightarrow> ptr \<Rightarrow> heap" where
  "WeightedRoundRobin_Done w h b = DecConns h b"

section \<open>Health monitor (package health)\<close>

record health_Config =
  Interval :: nat
  Timeout :: nat
  cfg_Path :: string

record Monitor =
  cfg :: health_Config
  mon_backends :: "ptr list"

text \<open>
  The outcome of \<open>m.client.Get(target)\<close>: an error (transport failure or timeout), or a
  response with its status code.
\<close>

datatype get_result = GetError string | GetResponse int

datatype log_record =
    WarnBecameUnhealthy string
  | InfoRecovered string
  | ErrorNoHealthyBackend
  | ErrorBackendMarkedUnhealthy string
  | ErrorBackend
  | DebugProxying string

text \<open>
  \<open>probe\<close>: the network is the function \<open>get\<close> from the probed URL to the outcome of the
  request. The result is the records logged and the new heap.
\<close>

definition probe :: "Monitor \<Rightarrow> (string \<Rightarrow> get_result) \<Rightarrow> heap \<Rightarrow> ptr \<Rightarrow> log_record list \<times> heap" where
  "probe m get h b =
     (let target = RawURL (h b) @ cfg_Path (cfg m) in
      case get target of
        GetError err \<Rightarrow>
          ((if IsHealthy h b then [WarnBecameUnhealthy (RawURL (h b))] else []),
           SetHealthy h b False)
      | GetResponse StatusCode \<Rightarrow>
          if 200 \<le> StatusCode \<and> StatusCode < 400
          then ((if \<not> IsHealthy h b then [InfoRecovered (RawURL (h b))] else []),
                SetHealthy h b True)
          else ((if IsHealthy h b then [WarnBecameUnhealthy (RawURL (h b))] else []),
                SetHealthy h b False))"

section \<open>Picker interface and factory (package strategy)\<close>

text \<open>
  \<open>Picker\<close> is an interface; its three implementations are the constructors. A call on
  the interface dispatches on the implementation.
\<close>

datatype Picker =
    PRoundRobin RoundRobin
  | PWeightedRoundRobin WeightedRoundRobin
  | PLeastConnections LeastConnections

fun Picker_Next :: "Picker \<Rightarrow> heap \<Rightarrow> (error + ptr) \<times> Picker \<times> heap" where
  "Picker_Next (PRoundRobin r) h =
     (case RoundRobin_Next r h of (res, r', h') \<Rightarrow> (res, PRoundRobin r', h'))"
| "Picker_Next (PWeightedRoundRobin w) h =
     (case WeightedRoundRobin_Next w h of (res, w', h') \<Rightarrow> (res, PWeightedRoundRobin w', h'))"
| "Picker_Next (PLeastConnections l) h =
     (case LeastConnections_Next l h of (res, l', h') \<Rightarrow> (res, PLeastConnections l', h'))"

fun Picker_Done :: "Picker \<Rightarrow> heap \<Rightarrow> ptr \<Rightarrow> heap" where
  "Picker_Done (PRoundRobin r) h b = RoundRobin_Done r h b"
| "Picker_Done (PWeightedRoundRobin w) h b = WeightedRoundRobin_Done w h b"
| "Picker_Done (PLeastConnections l) h b = LeastConnections_Done l h b"

text \<open>
  \<open>New\<close>: \<open>ErrNoBackends\<close> is the error "strategy: at least one backend required", and
  \<open>ErrUnknownAlgorithm\<close> the error that \<open>fmt.Errorf\<close> formats from "strategy: unknown
  algorithm %q" and the name it carries.
\<close>

definition strategy_New :: "string \<Rightarrow> ptr list \<Rightarrow> error + Picker" where
  "strategy_New strategy backends =
     (if length backends = 0 then Inl ErrNoBackends
      else if strategy = ''round_robin'' \<or> strategy = [] then Inr (PRoundRobin (NewRoundRobin backends))
      else if strategy = ''weighted_round_robin''
        then Inr (PWeightedRoundRobin (NewWeightedRoundRobin backends))
      else if strategy = ''least_connections''
        then Inr (PLeastConnections (NewLeastConnections backends))
      else Inl (ErrUnknownAlgorithm strategy))"

section \<open>HTTP headers (net/http, net/textproto)\<close>

text \<open>
  \<open>http.Header\<close> is a map from canonical keys to the list of the key's values. \<open>Get\<close>,
  \<open>Set\<close> and \<open>Del\<close> canonicalise the key they are given: the first letter and every
  letter after a hyphen in upper case, the others in lower case, unless the key holds a
  byte that is no header field byte.
\<close>

type_synonym http_Header = "string \<rightharpoonup> string list"

definition validHeaderFieldByte :: "char \<Rightarrow> bool" where
  "validHeaderFieldByte c =
     (let n = (of_char c :: nat) in
      (48 \<le> n \<and> n \<le> 57) \<or> (65 \<le> n \<and> n \<le> 90) \<or> (97 \<le> n \<and> n \<le> 122) \<or>
      n = 39 \<or> c \<in> set ''!#$%&*+-.^_`|~'')"

fun canon_bytes :: "bool \<Rightarrow> string \<Rightarrow> string" where
  "canon_bytes upper [] = []"
| "canon_bytes upper (c # cs) =
     (let n = (of_char c :: nat);
          c' = (if upper \<and> 97 \<le> n \<and> n \<le> 122 then char_of (n - 32)
                else if \<not> upper \<and> 65 \<le> n \<and> n \<le> 90 then char_of (n + 32)
                else c)
      in c' # canon_bytes (c' = CHR ''-'') cs)"

definition CanonicalMIMEHeaderKey :: "string \<Rightarrow> string" where
  "CanonicalMIMEHeaderKey s = (if list_all validHeaderFieldByte s then canon_bytes True s else s)"

definition Header_Get :: "http_Header \<Rightarrow> string \<Rightarrow> string" where
  "Header_Get hdr key =
     (case hdr (CanonicalMIMEHeaderKey key) of
        None \<Rightarrow> []
      | Some [] \<Rightarrow> []
      | Some (v # vs) \<Rightarrow> v)"

definition Header_Set :: "http_Header \<Rightarrow> string \<Rightarrow> string \<Rightarrow> http_Header" where
  "Header_Set hdr key val = hdr(CanonicalMIMEHeaderKey key \<mapsto> [val])"

definition Header_Del :: "http_Header \<Rightarrow> string \<Rightarrow> http_Header" where
  "Header_Del hdr key = hdr(CanonicalMIMEHeaderKey key := None)"

text \<open>
  \<open>hdr[key]\<close>, the slice stored under a key as it is written (no slice when the key is
  absent), and \<open>Values\<close>, which canonicalises the key first.
\<close>

definition Header_index :: "http_Header \<Rightarrow> string \<Rightarrow> string list" where
  "Header_index hdr key = (case hdr key of None \<Rightarrow> [] | Some vs \<Rightarrow> vs)"

definition Header_Values :: "http_Header \<Rightarrow> string \<Rightarrow> string list" where
  "Header_Values hdr key = Header_index hdr (CanonicalMIMEHeaderKey key)"

section \<open>Gateway (package proxy)\<close>

text \<open>
  A request as the hooks of the reverse proxy see it. \<open>TLS\<close> is whether \<open>r.TLS\<close> is not
  nil; \<open>ctx_backend\<close> is the value stored under \<open>ctxKey{}\<close> in the request's context
  (\<open>None\<close> when there is none).
\<close>

record Request =
  Method :: string
  req_URL :: url_URL
  req_Host :: string
  Header :: http_Header
  RemoteAddr :: string
  TLS :: bool
  ctx_backend :: "ptr option"

text \<open>What a handler wrote to its \<open>http.ResponseWriter\<close>.\<close>

record ResponseWriter =
  StatusCode :: int
  rw_Header :: http_Header
  Body :: string

text \<open>
  \<open>http.Error\<close> replaces the content type, writes the status code and prints the message
  followed by a newline.
\<close>

definition http_Error :: "ResponseWriter \<Rightarrow> string \<Rightarrow> int \<Rightarrow> ResponseWriter" where
  "http_Error w msg code =
     (let hd1 = Header_Del (rw_Header w) ''Content-Length'';
          hd2 = Header_Set hd1 ''Content-Type'' ''text/plain; charset=utf-8'';
          hd3 = Header_Set hd2 ''X-Content-Type-Options'' ''nosniff''
      in w\<lparr>rw_Header := hd3, StatusCode := code, Body := Body w @ msg @ [CHR 0x0A]\<rparr>)"

definition StatusBadGateway :: int where
  "StatusBadGateway = 502"

text \<open>
  Pickers are objects too: the gateway holds a reference to the current one, and a
  reload builds a new object. \<open>pickers\<close> maps each reference to the object's state. The
  calls that reach a picker are recorded in \<open>calls\<close>, each with the picker that received
  it.
\<close>

type_synonym pref = nat

record Gateway =
  picker :: pref

datatype picker_call = CalledNext pref "error + ptr" | CalledDone pref ptr

record world =
  heap :: heap
  pickers :: "pref \<Rightarrow> Picker"
  gw :: Gateway
  calls :: "picker_call list"
  logs :: "log_record list"


definition requestScheme :: "Request \<Rightarrow> string" where
  "requestScheme r = (if TLS r then ''https'' else ''http'')"

definition director :: "world \<Rightarrow> Request \<Rightarrow> Request \<times> world" where
  "director s req =
     (let p = picker (gw s) in
      case Picker_Next (pickers s p) (heap s) of
        (Inl err, pk, h) \<Rightarrow>
          (req\<lparr>req_URL := (req_URL req)\<lparr>Scheme := ''http'', Host := ''0.0.0.0:0''\<rparr>\<rparr>,
           s\<lparr>heap := h, pickers := (pickers s)(p := pk),
             calls := calls s @ [CalledNext p (Inl err)],
             logs := logs s @ [ErrorNoHealthyBackend]\<rparr>)
      | (Inr b, pk, h) \<Rightarrow>
          let originalHost = req_Host req;
              req1 = req\<lparr>req_URL := (req_URL req)\<lparr>Scheme := Scheme (URL (h b)),
                                                  Host := Host (URL (h b))\<rparr>,
                         req_Host := Host (URL (h b))\<rparr>;
              hd1 = Header_Del (Header req1) ''Te'';
              hd2 = Header_Del hd1 ''Trailers'';
              prior = Header_Get hd2 ''X-Forwarded-For'';
              hd3 = (if prior \<noteq> []
                     then Header_Set hd2 ''X-Forwarded-For'' (prior @ '', '' @ RemoteAddr req1)
                     else Header_Set hd2 ''X-Forwarded-For'' (RemoteAddr req1));
              hd4 = Header_Set hd3 ''X-Real-IP'' (RemoteAddr req1);
              hd5 = Header_Set hd4 ''X-Forwarded-Host'' originalHost;
              hd6 = Header_Set hd5 ''X-Forwarded-Proto'' (requestScheme req1)
          in (req1\<lparr>Header := hd6, ctx_backend := Some b\<rparr>,
              s\<lparr>heap := h, pickers := (pickers s)(p := pk),
                calls := calls s @ [CalledNext p (Inr b)],
                logs := logs s @ [DebugProxying (RawURL (h b))]\<rparr>))"


definition errorHandler :: "world \<Rightarrow> ResponseWriter \<Rightarrow> Request \<Rightarrow> string \<Rightarrow> ResponseWriter \<times> world" where
  "errorHandler s w r err =
     (case ctx_backend r of
        Some b \<Rightarrow>
          let p = picker (gw s);
              h1 = Picker_Done (pickers s p) (heap s) b;
              h2 = SetHealthy h1 b False;
              h3 = IncRequests h2 b;
              h4 = IncErrors h3 b
          in (http_Error w ''bad gateway'' StatusBadGateway,
              s\<lparr>heap := h4, calls := calls s @ [CalledDone p b],
                logs := logs s @ [ErrorBackendMarkedUnhealthy (RawURL (h4 b))]\<rparr>)
      | None \<Rightarrow>
          (http_Error w ''bad gateway'' StatusBadGateway, s\<lparr>logs := logs s @ [ErrorBackend]\<rparr>))"

section \<open>The reverse proxy (net/http/httputil)\<close>

text \<open>
  The gateway serves every request through \<open>httputil.ReverseProxy\<close>, with \<open>director\<close> as
  its \<open>Director\<close> hook. \<open>ReverseProxy.ServeHTTP\<close> calls the director on a copy of the
  inbound request and then works on that copy once more before it hands it to the
  transport: it removes the hop-by-hop headers, announces trailer support again when the
  client did, restores the headers of a protocol upgrade, and appends the client's
  address to \<open>X-Forwarded-For\<close>. The library is not part of the repository; the functions
  of this section follow the source of the library that Go 1.24 ships, which is the
  version the repository asks for.
\<close>

subsection \<open>Tokens of a header value (golang.org/x/net/http/httpguts)\<close>

definition isOWS :: "char \<Rightarrow> bool" where
  "isOWS c = (c = CHR '' '' \<or> c = CHR 0x09)"

definition trimOWS :: "string \<Rightarrow> string" where
  "trimOWS x = rev (dropWhile isOWS (rev (dropWhile isOWS x)))"

definition lowerASCII :: "char \<Rightarrow> char" where
  "lowerASCII c =
     (let n = (of_char c :: nat) in if 65 \<le> n \<and> n \<le> 90 then char_of (n + 32) else c)"

text \<open>
  \<open>tokenEqual\<close> compares byte by byte, without regard to the case of ASCII letters, and
  fails at a byte of \<open>t1\<close> that is not ASCII.
\<close>

definition tokenEqual :: "string \<Rightarrow> string \<Rightarrow> bool" where
  "tokenEqual t1 t2 =
     (length t1 = length t2
      \<and> list_all2 (\<lambda>a b. (of_char a :: nat) < 0x80 \<and> lowerASCII a = lowerASCII b) t1 t2)"

text \<open>\<open>strings.Split\<close> for a separator of one byte.\<close>

fun strings_Split :: "string \<Rightarrow> char \<Rightarrow> string list" where
  "strings_Split [] sep = [[]]"
| "strings_Split (c # cs) sep =
     (if c = sep then [] # strings_Split cs sep
      else (case strings_Split cs sep of
              [] \<Rightarrow> [[c]]
            | x # xs \<Rightarrow> (c # x) # xs))"

text \<open>
  The loop of \<open>headerValueContainsToken\<close> compares the token with each of the pieces
  between the commas of the value, in order.
\<close>

definition headerValueContainsToken :: "string \<Rightarrow> string \<Rightarrow> bool" where
  "headerValueContainsToken v token =
     list_ex (\<lambda>part. tokenEqual (trimOWS part) token) (strings_Split v (CHR '',''))"

definition HeaderValuesContainsToken :: "string list \<Rightarrow> string \<Rightarrow> bool" where
  "HeaderValuesContainsToken values token = list_ex (\<lambda>v. headerValueContainsToken v token) values"

subsection \<open>Hop-by-hop headers\<close>

text \<open>\<open>textproto.TrimString\<close> and \<open>ascii.IsPrint\<close>.\<close>

definition isASCIISpace :: "char \<Rightarrow> bool" where
  "isASCIISpace c = (c = CHR '' '' \<or> c = CHR 0x09 \<or> c = CHR 0x0A \<or> c = CHR 0x0D)"

definition TrimString :: "string \<Rightarrow> string" where
  "TrimString s = rev (dropWhile isASCIISpace (rev (dropWhile isASCIISpace s)))"

definition IsPrint :: "string \<Rightarrow> bool" where
  "IsPrint s = list_all (\<lambda>c. 0x20 \<le> (of_char c :: nat) \<and> (of_char c :: nat) \<le> 0x7E) s"

definition upgradeType :: "http_Header \<Rightarrow> string" where
  "upgradeType hdr =
     (if \<not> HeaderValuesContainsToken (Header_index hdr ''Connection'') ''Upgrade'' then []
      else Header_Get hdr ''Upgrade'')"

definition hopHeaders :: "string list" where
  "hopHeaders =
     [''Connection'', ''Proxy-Connection'', ''Keep-Alive'', ''Proxy-Authenticate'',
      ''Proxy-Authorization'', ''Te'', ''Trailer'', ''Transfer-Encoding'', ''Upgrade'']"

text \<open>
  \<open>removeHopByHopHeaders\<close> deletes every header that a value of the \<open>Connection\<close> header
  names (\<open>connection_fields\<close>: the pieces between the commas, trimmed, the empty ones
  skipped) and then the headers of \<open>hopHeaders\<close>.
\<close>

definition connection_fields :: "http_Header \<Rightarrow> string list" where
  "connection_fields hdr =
     filter (\<lambda>sf. sf \<noteq> [])
       (concat (map (\<lambda>f. map TrimString (strings_Split f (CHR '','')))
                    (Header_index hdr ''Connection'')))"

definition removeHopByHopHeaders :: "http_Header \<Rightarrow> http_Header" where
  "removeHopByHopHeaders hdr =
     fold (\<lambda>f hdr'. Header_Del hdr' f) hopHeaders
       (fold (\<lambda>sf hdr'. Header_Del hdr' sf) (connection_fields hdr) hdr)"

subsection \<open>The client's address (net.SplitHostPort)\<close>

text \<open>
  \<open>SplitHostPort\<close> returns the host and the port of an address, or an error (\<open>None\<close>): the
  port follows the last colon, a host in brackets ends just before that colon, a host
  without brackets holds no colon, and no other bracket occurs.
\<close>

definition IndexByte :: "string \<Rightarrow> char \<Rightarrow> nat option" where
  "IndexByte s c = (if c \<in> set s then Some (length (takeWhile (\<lambda>x. x \<noteq> c) s)) else None)"

definition LastIndexByte :: "string \<Rightarrow> char \<Rightarrow> nat option" where
  "LastIndexByte s c =
     (if c \<in> set s then Some (length s - 1 - length (takeWhile (\<lambda>x. x \<noteq> c) (rev s))) else None)"

definition SplitHostPort :: "string \<Rightarrow> (string \<times> string) option" where
  "SplitHostPort hostport =
     (case LastIndexByte hostport (CHR '':'') of
        None \<Rightarrow> None
      | Some i \<Rightarrow>
          let brackets_ok = (\<lambda>j k.
                IndexByte (drop j hostport) (CHR ''['') = None
                \<and> IndexByte (drop k hostport) (CHR '']'') = None);
              port = drop (i + 1) hostport
          in if hostport ! 0 = CHR ''[''
             then (case IndexByte hostport (CHR '']'') of
                     None \<Rightarrow> None
                   | Some e \<Rightarrow>
                       if e + 1 = length hostport then None
                       else if e + 1 = i
                         then (if brackets_ok 1 (e + 1)
                               then Some (take (e - 1) (drop 1 hostport), port) else None)
                       else None)
             else if IndexByte (take i hostport) (CHR '':'') \<noteq> None then None
             else if brackets_ok 0 0 then Some (take i hostport, port)
             else None)"

definition strings_Join :: "string list \<Rightarrow> string \<Rightarrow> string" where
  "strings_Join elems sep = (case elems of [] \<Rightarrow> [] | e # es \<Rightarrow> e @ concat (map (\<lambda>x. sep @ x) es))"

subsection \<open>ServeHTTP, up to the round trip\<close>

text \<open>
  The request that \<open>ServeHTTP\<close> passes to \<open>transport.RoundTrip\<close> (\<open>Inr\<close>), or the response
  of the error handler (\<open>Inl\<close>) when the client asks for an upgrade to a protocol whose
  name is not printable ASCII: then no request is sent, and the error handler receives
  the inbound request, whose context holds no backend. The handler does not read the
  error, of which the model passes the text without the quoted protocol name. The
  library tells a header whose slice is \<open>nil\<close> (it leaves \<open>X-Forwarded-For\<close> alone then)
  from one whose slice is empty; here both are \<open>Some []\<close> and count as \<open>nil\<close>. The director
  always leaves \<open>X-Forwarded-For\<close> with one value.
\<close>

definition ServeHTTP_outreq ::
    "world \<Rightarrow> ResponseWriter \<Rightarrow> Request \<Rightarrow> (ResponseWriter + Request) \<times> world" where
  "ServeHTTP_outreq s rw req =
     (case director s req of
        (outreq, s1) \<Rightarrow>
          let reqUpType = upgradeType (Header outreq) in
          if \<not> IsPrint reqUpType
          then (case errorHandler s1 rw req ''client tried to switch to invalid protocol'' of
                  (rw', s2) \<Rightarrow> (Inl rw', s2))
          else
            let hd1 = removeHopByHopHeaders (Header outreq);
                hd2 = (if HeaderValuesContainsToken (Header_index (Header req) ''Te'') ''trailers''
                       then Header_Set hd1 ''Te'' ''trailers'' else hd1);
                hd3 = (if reqUpType \<noteq> []
                       then Header_Set (Header_Set hd2 ''Connection'' ''Upgrade'') ''Upgrade'' reqUpType
                       else hd2);
                hd4 = (case SplitHostPort (RemoteAddr req) of
                         None \<Rightarrow> hd3
                       | Some (clientIP, port) \<Rightarrow>
                           (case hd3 ''X-Forwarded-For'' of
                              None \<Rightarrow> Header_Set hd3 ''X-Forwarded-For'' clientIP
                            | Some [] \<Rightarrow> hd3
                            | Some (v # vs) \<Rightarrow>
                                Header_Set hd3 ''X-Forwarded-For''
                                  (strings_Join (v # vs) '', '' @ '', '' @ clientIP)));
                hd5 = (if hd4 ''User-Agent'' = None then Header_Set hd4 ''User-Agent'' [] else hd4)
            in (Inr (outreq\<lparr>Header := hd5\<rparr>), s1))"

text \<open>
  The values of a header of the request sent upstream; \<open>None\<close> when no request is sent.
\<close>

definition upstream_values :: "(ResponseWriter + Request) \<times> world \<Rightarrow> string \<Rightarrow> string list option" where
  "upstream_values res key =
     (case fst res of Inl rw \<Rightarrow> None | Inr outreq \<Rightarrow> Some (Header_Values (Header outreq) key))"

section \<open>URL parsing (net/url) and NewBackend\<close>

text \<open>
  \<open>url.Parse\<close> belongs to Go's standard library, not to the repository: \<open>NewBackend\<close> and
  \<open>Registry.Add\<close> take the parser as the parameter \<open>parse\<close>. For concrete inputs,
  \<open>url_Parse\<close> follows the structure of the library's \<open>Parse\<close>: the fragment is cut off,
  control bytes are refused, \<open>getScheme\<close> splits off a scheme, the query is cut off, a
  first path segment with a colon is refused when there is no scheme, and an authority
  after \<open>//\<close> gives the host. It does not decode percent-escapes and does not check the
  characters of userinfo, host and port.
\<close>

definition stringContainsCTLByte :: "string \<Rightarrow> bool" where
  "stringContainsCTLByte s = list_ex (\<lambda>c. (of_char c :: nat) < 0x20 \<or> (of_char c :: nat) = 0x7f) s"

text \<open>\<open>strings.Cut\<close> for a separator of one byte: the text before it and the text after it.\<close>

definition strings_Cut :: "string \<Rightarrow> char \<Rightarrow> string \<times> string" where
  "strings_Cut s sep = (takeWhile (\<lambda>c. c \<noteq> sep) s, drop 1 (dropWhile (\<lambda>c. c \<noteq> sep) s))"

definition is_letter :: "char \<Rightarrow> bool" where
  "is_letter c = (let n = (of_char c :: nat) in (97 \<le> n \<and> n \<le> 122) \<or> (65 \<le> n \<and> n \<le> 90))"

definition is_scheme_extra :: "char \<Rightarrow> bool" where
  "is_scheme_extra c =
     (let n = (of_char c :: nat) in
      (48 \<le> n \<and> n \<le> 57) \<or> c = CHR ''+'' \<or> c = CHR ''-'' \<or> c = CHR ''.'')"

text \<open>The loop of \<open>getScheme\<close>: \<open>i\<close> is the index of the first byte of \<open>cs\<close> in \<open>rawURL\<close>.\<close>

fun getScheme_loop :: "nat \<Rightarrow> string \<Rightarrow> string \<Rightarrow> string + (string \<times> string)" where
  "getScheme_loop i [] rawURL = Inr ([], rawURL)"
| "getScheme_loop i (c # cs) rawURL =
     (if is_letter c then getScheme_loop (i + 1) cs rawURL
      else if is_scheme_extra c
        then (if i = 0 then Inr ([], rawURL) else getScheme_loop (i + 1) cs rawURL)
      else if c = CHR '':''
        then (if i = 0 then Inl ''missing protocol scheme''
              else Inr (take i rawURL, drop (i + 1) rawURL))
      else Inr ([], rawURL))"

definition getScheme :: "string \<Rightarrow> string + (string \<times> string)" where
  "getScheme rawURL = getScheme_loop 0 rawURL rawURL"

definition ToLower :: "string \<Rightarrow> string" where
  "ToLower s =
     map (\<lambda>c. let n = (of_char c :: nat) in if 65 \<le> n \<and> n \<le> 90 then char_of (n + 32) else c) s"

definition HasPrefix :: "string \<Rightarrow> string \<Rightarrow> bool" where
  "HasPrefix s pre = (take (length pre) s = pre)"

definition empty_URL :: url_URL where
  "empty_URL = \<lparr>Scheme = [], Opaque = [], Host = [], Path = [], RawQuery = [], Fragment = []\<rparr>"

text \<open>The host of an authority: what follows the last \<open>@\<close>, or all of it.\<close>

definition authority_host :: "string \<Rightarrow> string" where
  "authority_host authority = rev (takeWhile (\<lambda>c. c \<noteq> CHR ''@'') (rev authority))"

definition url_parse :: "string \<Rightarrow> string + url_URL" where
  "url_parse rawURL =
     (if stringContainsCTLByte rawURL then Inl ''net/url: invalid control character in URL''
      else if rawURL = ''*'' then Inr (empty_URL\<lparr>Path := ''*''\<rparr>)
      else
        case getScheme rawURL of
          Inl err \<Rightarrow> Inl err
        | Inr (scheme, rest0) \<Rightarrow>
            let u = empty_URL\<lparr>Scheme := ToLower scheme\<rparr>;
                (rest, query) = strings_Cut rest0 (CHR ''?'');
                u = u\<lparr>RawQuery := query\<rparr>
            in if \<not> HasPrefix rest ''/'' \<and> Scheme u \<noteq> [] then Inr (u\<lparr>Opaque := rest\<rparr>)
               else if \<not> HasPrefix rest ''/''
                       \<and> CHR '':'' \<in> set (fst (strings_Cut rest (CHR ''/'')))
                 then Inl ''first path segment in URL cannot contain colon''
               else if (Scheme u \<noteq> [] \<or> \<not> HasPrefix rest ''///'') \<and> HasPrefix rest ''//''
                 then
                   let authority = takeWhile (\<lambda>c. c \<noteq> CHR ''/'') (drop 2 rest);
                       rest' = dropWhile (\<lambda>c. c \<noteq> CHR ''/'') (drop 2 rest)
                   in Inr (u\<lparr>Host := authority_host authority, Path := rest'\<rparr>)
               else Inr (u\<lparr>Path := rest\<rparr>))"

definition url_Parse :: "string \<Rightarrow> string + url_URL" where
  "url_Parse rawURL =
     (let (u, frag) = strings_Cut rawURL (CHR ''#'') in
      case url_parse u of
        Inl err \<Rightarrow> Inl err
      | Inr url \<Rightarrow> Inr (url\<lparr>Fragment := frag\<rparr>))"

text \<open>
  \<open>NewBackend\<close>: the new object, which the caller receives through a pointer. The atomic
  fields start at their zero values, except \<open>healthy\<close>.
\<close>

definition NewBackend :: "(string \<Rightarrow> string + url_URL) \<Rightarrow> string \<Rightarrow> go_int \<Rightarrow> error + Backend" where
  "NewBackend parse rawURL weight =
     (case parse rawURL of
        Inl err \<Rightarrow> Inl (ErrInvalidURL rawURL err)
      | Inr u \<Rightarrow>
          Inr \<lparr>URL = u, RawURL = rawURL, Weight = weight, healthy = True, blocked = False,
               activeConns = 0, totalRequests = 0, totalErrors = 0\<rparr>)"

section \<open>Registry (package admin)\<close>

text \<open>
  The registry's state together with the heap it allocates backends in: \<open>brk\<close> is the
  first address not yet in use. \<open>events\<close> records, in order, the operations on the
  registry's lock and the calls of the \<open>onChange\<close> callback with their arguments.
  \<open>snapshot\<close> copies the slice, so the callback receives a list of its own.
\<close>

datatype reg_event = MuLock | MuUnlock | MuRLock | MuRUnlock | OnChange string "ptr list"

record Registry =
  objs :: heap
  brk :: ptr
  reg_backends :: "ptr list"
  reg_strategy :: string
  events :: "reg_event list"

definition snapshot :: "Registry \<Rightarrow> ptr list" where
  "snapshot r = reg_backends r"

fun find_loop :: "heap \<Rightarrow> string \<Rightarrow> ptr list \<Rightarrow> int \<Rightarrow> int" where
  "find_loop h rawURL [] i = - 1"
| "find_loop h rawURL (b # bs) i = (if RawURL (h b) = rawURL then i else find_loop h rawURL bs (i + 1))"

definition Registry_find :: "Registry \<Rightarrow> string \<Rightarrow> int" where
  "Registry_find r rawURL = find_loop (objs r) rawURL (reg_backends r) 0"

definition Registry_Add ::
    "(string \<Rightarrow> string + url_URL) \<Rightarrow> Registry \<Rightarrow> string \<Rightarrow> go_int \<Rightarrow> error option \<times> Registry" where
  "Registry_Add parse r rawURL weight =
     (case NewBackend parse rawURL weight of
        Inl err \<Rightarrow> (Some err, r)
      | Inr obj \<Rightarrow>
          let b = brk r;
              r1 = r\<lparr>objs := (objs r)(b := obj), brk := b + 1, events := events r @ [MuLock]\<rparr>
          in if list_ex (\<lambda>existing. RawURL (objs r1 existing) = rawURL) (reg_backends r1)
             then (Some (ErrAlreadyExists rawURL), r1\<lparr>events := events r1 @ [MuUnlock]\<rparr>)
             else
               let r2 = r1\<lparr>reg_backends := reg_backends r1 @ [b]\<rparr>;
                   snap = snapshot r2;
                   strat = reg_strategy r2;
                   r3 = r2\<lparr>events := events r2 @ [MuUnlock]\<rparr>
               in (None, r3\<lparr>events := events r3 @ [OnChange strat snap]\<rparr>))"

definition Registry_Remove :: "Registry \<Rightarrow> string \<Rightarrow> error option \<times> Registry" where
  "Registry_Remove r rawURL =
     (let r1 = r\<lparr>events := events r @ [MuLock]\<rparr>;
          idx = Registry_find r1 rawURL
      in if idx < 0 then (Some (ErrNotFound rawURL), r1\<lparr>events := events r1 @ [MuUnlock]\<rparr>)
         else
           let r2 = r1\<lparr>reg_backends := take (nat idx) (reg_backends r1)
                                          @ drop (nat idx + 1) (reg_backends r1)\<rparr>;
               snap = snapshot r2;
               strat = reg_strategy r2;
               r3 = r2\<lparr>events := events r2 @ [MuUnlock]\<rparr>
           in (None, r3\<lparr>events := events r3 @ [OnChange strat snap]\<rparr>))"

definition Registry_Block :: "Registry \<Rightarrow> string \<Rightarrow> error option \<times> Registry" where
  "Registry_Block r rawURL =
     (let r1 = r\<lparr>events := events r @ [MuRLock]\<rparr>;
          idx = Registry_find r1 rawURL
      in if idx < 0 then (Some (ErrNotFound rawURL), r1\<lparr>events := events r1 @ [MuRUnlock]\<rparr>)
         else
           let b = reg_backends r1 ! nat idx;
               strat = reg_strategy r1;
               snap = snapshot r1;
               r2 = r1\<lparr>events := events r1 @ [MuRUnlock]\<rparr>;
               r3 = r2\<lparr>objs := SetBlocked (objs r2) b True\<rparr>
           in (None, r3\<lparr>events := events r3 @ [OnChange strat snap]\<rparr>))"

section \<open>Weighted round robin: the loops as list functions\<close>

text \<open>
  What the loops of \<open>WeightedRoundRobin.Next\<close> compute, for the proofs: the indices of the
  healthy entries, and an entry after step 1.
\<close>

definition wrr_healthy :: "heap \<Rightarrow> wrrEntry list \<Rightarrow> nat list" where
  "wrr_healthy h es = filter (\<lambda>i. IsHealthy h (backend (es ! i))) [0..<length es]"

definition bump_entry :: "heap \<Rightarrow> wrrEntry \<Rightarrow> wrrEntry" where
  "bump_entry h e = e\<lparr>currentWeight := currentWeight e + Weight (h (backend e))\<rparr>"

definition raise_entry :: "heap \<Rightarrow> wrrEntry \<Rightarrow> wrrEntry" where
  "raise_entry h e =
     (if IsHealthy h (backend e)
      then e\<lparr>currentWeight := currentWeight e + Weight (h (backend e))\<rparr> else e)"

text \<open>
  The signed readings the statements about weighted round robin are made of: an entry's
  weight and current weight, the total weight of the healthy entries, the bounds under
  which no addition or subtraction of \<open>Next\<close> overflows, and the invariant of the
  current weights (each above minus the total, and summing to zero over the healthy
  entries).
\<close>

definition wrr_weight :: "heap \<Rightarrow> wrrEntry list \<Rightarrow> nat \<Rightarrow> int" where
  "wrr_weight h es i = sint (Weight (h (backend (es ! i))))"

definition wrr_total :: "heap \<Rightarrow> wrrEntry list \<Rightarrow> int" where
  "wrr_total h es = (\<Sum>i\<leftarrow>wrr_healthy h es. wrr_weight h es i)"

definition wrr_cw :: "wrrEntry list \<Rightarrow> nat \<Rightarrow> int" where
  "wrr_cw es i = sint (currentWeight (es ! i))"

definition wrr_bounded :: "heap \<Rightarrow> wrrEntry list \<Rightarrow> bool" where
  "wrr_bounded h es \<longleftrightarrow>
     (\<forall>i\<in>set (wrr_healthy h es). 1 \<le> wrr_weight h es i)
     \<and> int (length (wrr_healthy h es)) * wrr_total h es < 2 ^ 63"

definition wrr_inv :: "heap \<Rightarrow> wrrEntry list \<Rightarrow> bool" where
  "wrr_inv h es \<longleftrightarrow>
     (\<forall>i\<in>set (wrr_healthy h es). - wrr_total h es < wrr_cw es i)
     \<and> (\<Sum>i\<leftarrow>wrr_healthy h es. wrr_cw es i) = 0"

text \<open>The sum of \<open>currentWeight\<close> over all entries of a picker, each read as the integer it is.\<close>

definition wrr_sum :: "WeightedRoundRobin \<Rightarrow> int" where
  "wrr_sum w = (\<Sum>e\<leftarrow>entries w. sint (currentWeight e))"

section \<open>Sequences of calls\<close>

text \<open>
  \<open>n\<close> consecutive calls of \<open>Next\<close> on one picker, each on the heap the call before left:
  the results in order, the picker's final state and the final heap.
\<close>

fun rr_run :: "nat \<Rightarrow> RoundRobin \<Rightarrow> heap \<Rightarrow> (error + ptr) list \<times> RoundRobin \<times> heap" where
  "rr_run 0 r h = ([], r, h)"
| "rr_run (Suc n) r h =
     (case RoundRobin_Next r h of
        (res, r', h') \<Rightarrow> (case rr_run n r' h' of (rs, r'', h'') \<Rightarrow> (res # rs, r'', h'')))"

fun wrr_run ::
    "nat \<Rightarrow> WeightedRoundRobin \<Rightarrow> heap \<Rightarrow> (error + ptr) list \<times> WeightedRoundRobin \<times> heap" where
  "wrr_run 0 w h = ([], w, h)"
| "wrr_run (Suc n) w h =
     (case WeightedRoundRobin_Next w h of
        (res, w', h') \<Rightarrow> (case wrr_run n w' h' of (rs, w'', h'') \<Rightarrow> (res # rs, w'', h'')))"

text \<open>The calls \<open>j + 1\<close> to \<open>j + m\<close> of a sequence of results.\<close>

definition window :: "nat \<Rightarrow> nat \<Rightarrow> 'a list \<Rightarrow> 'a list" where
  "window j m rs = take m (drop j rs)"

text \<open>
  The indices of the entries that \<open>n\<close> consecutive selections pick, and the entries they
  leave, on a heap whose health flags and weights stay as they are.
\<close>

fun wrr_picks :: "nat \<Rightarrow> heap \<Rightarrow> wrrEntry list \<Rightarrow> nat list \<times> wrrEntry list" where
  "wrr_picks 0 h es = ([], es)"
| "wrr_picks (Suc n) h es =
     (case wrr_select h es of
        None \<Rightarrow> ([], es)
      | Some (best, es') \<Rightarrow> (case wrr_picks n h es' of (ps, es'') \<Rightarrow> (best # ps, es'')))"

text \<open>The total weight of the selectable backends of a list.\<close>

definition total_weight :: "heap \<Rightarrow> ptr list \<Rightarrow> int" where
  "total_weight h bs = (\<Sum>b\<leftarrow>healthySubset h bs. sint (Weight (h b)))"

section \<open>Concrete backends used in examples\<close>

definition example_URL :: "string \<Rightarrow> url_URL" where
  "example_URL hst =
     \<lparr>Scheme = ''http'', Opaque = [], Host = hst, Path = [], RawQuery = [], Fragment = []\<rparr>"

definition example_backend :: "string \<Rightarrow> go_int \<Rightarrow> Backend" where
  "example_backend hst w =
     \<lparr>URL = example_URL hst, RawURL = ''http://'' @ hst, Weight = w, healthy = True,
      blocked = False, activeConns = 0, totalRequests = 0, totalErrors = 0\<rparr>"

text \<open>A heap holding the backends of a list at the addresses 0, 1, 2, ...\<close>

definition heap_of :: "Backend list \<Rightarrow> heap" where
  "heap_of bs = (\<lambda>a. if a < length bs then bs ! a else example_backend ''unused:0'' 1)"

definition blocked_heap :: heap where
  "blocked_heap = SetBlocked (heap_of [example_backend ''b1:80'' 1]) 0 True"

definition down_heap :: heap where
  "down_heap = SetHealthy (heap_of [example_backend ''b1:80'' 1]) 0 False"

definition example_monitor :: Monitor where
  "example_monitor =
     \<lparr>cfg = \<lparr>Interval = 10, Timeout = 2, cfg_Path = ''/healthz''\<rparr>, mon_backends = [0]\<rparr>"

definition example_world :: world where
  "example_world =
     \<lparr>heap = heap_of [example_backend ''b1:80'' 1, example_backend ''b2:80'' 1],
      pickers = (\<lambda>p. if p = 0 then PRoundRobin (NewRoundRobin [0, 1])
                     else PLeastConnections (NewLeastConnections [0, 1])),
      gw = \<lparr>picker = 0\<rparr>, calls = [], logs = []\<rparr>"

definition example_request :: Request where
  "example_request =
     \<lparr>Method = ''GET'',
      req_URL = \<lparr>Scheme = [], Opaque = [], Host = [], Path = ''/anything'', RawQuery = [],
                 Fragment = []\<rparr>,
      req_Host = ''gateway.example'', Header = Map.empty, RemoteAddr = ''10.0.0.7:51234'',
      TLS = False, ctx_backend = None\<rparr>"

definition new_writer :: ResponseWriter where
  "new_writer = \<lparr>StatusCode = 200, rw_Header = Map.empty, Body = []\<rparr>"

definition three_backends :: heap where
  "three_backends =
     heap_of [example_backend ''b1:80'' 1, example_backend ''b2:80'' 1, example_backend ''b3:80'' 1]"

text \<open>A round-robin picker over three backends, two calls before its counter wraps around.\<close>

definition late_rr :: RoundRobin where
  "late_rr = \<lparr>rr_backends = [0, 1, 2], counter = 0xFFFFFFFFFFFFFFFE\<rparr>"

text \<open>A request whose \<open>X-Forwarded-For\<close> header is present with an empty value.\<close>

definition request_empty_xff :: Request where
  "request_empty_xff = example_request\<lparr>Header := [''X-Forwarded-For'' \<mapsto> [[]]]\<rparr>"

text \<open>
  A request over TLS that passed through another proxy before and accepts a compressed
  transfer coding.
\<close>

definition request_gzip :: Request where
  "request_gzip =
     example_request\<lparr>Header := [''X-Forwarded-For'' \<mapsto> [''203.0.113.9''], ''Te'' \<mapsto> [''gzip'']],
                      TLS := True\<rparr>"

text \<open>A request whose \<open>X-Forwarded-For\<close> header came in two lines.\<close>

definition request_two_xff :: Request where
  "request_two_xff =
     example_request\<lparr>Header := [''X-Forwarded-For'' \<mapsto> [''198.51.100.1'', ''198.51.100.2'']]\<rparr>"

text \<open>A request of a client that accepts trailers.\<close>

definition request_te_trailers :: Request where
  "request_te_trailers = example_request\<lparr>Header := [''Te'' \<mapsto> [''trailers'']]\<rparr>"

text \<open>A request whose \<open>Connection\<close> header names \<open>X-Real-IP\<close> as a hop-by-hop header.\<close>

definition request_connection :: Request where
  "request_connection = example_request\<lparr>Header := [''Connection'' \<mapsto> [''X-Real-IP'']]\<rparr>"

text \<open>A request for an upgrade to a protocol whose name is the single byte \<open>0xE9\<close>.\<close>

definition request_upgrade :: Request where
  "request_upgrade =
     example_request\<lparr>Header := [''Connection'' \<mapsto> [''Upgrade''], ''Upgrade'' \<mapsto> [[CHR 0xE9]]]\<rparr>"

text \<open>A registry holding the one backend \<open>http://b1:80\<close>.\<close>

definition example_registry :: Registry where
  "example_registry =
     \<lparr>objs = heap_of [example_backend ''b1:80'' 1], brk = 1, reg_backends = [0],
      reg_strategy = ''round_robin'', events = []\<rparr>"

text \<open>Two backends with the weights 3 and 1 (the example of the load-balancing guide).\<close>

definition weighted_heap :: heap where
  "weighted_heap = heap_of [example_backend ''a:80'' 3, example_backend ''b:80'' 1]"

text \<open>Two healthy backends of weight \<open>2^62\<close> each.\<close>

definition heavy_heap :: heap where
  "heavy_heap = heap_of [example_backend ''a:80'' (2 ^ 62), example_backend ''b:80'' (2 ^ 62)]"

text \<open>Four healthy backends of the weights \<open>2^62\<close>, \<open>2^62\<close>, \<open>1 - 2^62\<close> and \<open>1 - 2^62\<close>.\<close>

definition signed_heap :: heap where
  "signed_heap =
     heap_of [example_backend ''a:80'' (2 ^ 62), example_backend ''b:80'' (2 ^ 62),
              example_backend ''c:80'' (1 - 2 ^ 62), example_backend ''d:80'' (1 - 2 ^ 62)]"

text \<open>
  Three backends with the weights 3, 1 and 1, the third one unhealthy at first; the
  picker's state after two calls; and the heap after the monitor's probes then found the
  first backend down and the third one up.
\<close>

definition flap_heap :: heap where
  "flap_heap =
     SetHealthy (heap_of [example_backend ''a:80'' 3, example_backend ''b:80'' 1,
                          example_backend ''c:80'' 1]) 2 False"

definition flap_run :: "(error + ptr) list \<times> WeightedRoundRobin \<times> heap" where
  "flap_run = wrr_run 2 (NewWeightedRoundRobin [0, 1, 2]) flap_heap"

definition flapped_heap :: heap where
  "flapped_heap =
     snd (probe example_monitor (\<lambda>target. GetResponse 200)
            (snd (probe example_monitor (\<lambda>target. GetError ''connection refused'')
                    (snd (snd flap_run)) 0)) 2)"

section \<open>Health probes\<close>

lemma probe_heap:
  "snd (probe m get h b) =
     SetHealthy h b (case get (RawURL (h b) @ cfg_Path (cfg m)) of
                       GetError err \<Rightarrow> False
                     | GetResponse st \<Rightarrow> 200 \<le> st \<and> st < 400)"
  by (auto simp: probe_def Let_def split: get_result.splits)

text \<open>
  C6. Whatever the backend's flag was before the probe: a response with a status in
  [200, 400) leaves it healthy, and a recovery record is logged exactly when the backend
  was unhealthy before; a response with a status of 400 or more leaves it unhealthy; an
  error of the request (transport or timeout) leaves it unhealthy. Nothing else in the
  heap changes.
\<close>

theorem probe_sets_healthy:
  assumes "probe m get h b = (lg, h')"
      and "target = RawURL (h b) @ cfg_Path (cfg m)"
  shows "(\<forall>st. get target = GetResponse st \<and> 200 \<le> st \<and> st < 400 \<longrightarrow>
            IsHealthy h' b \<and> h' = SetHealthy h b True \<and>
            (InfoRecovered (RawURL (h b)) \<in> set lg \<longleftrightarrow> \<not> IsHealthy h b))
       \<and> (\<forall>st. get target = GetResponse st \<and> 400 \<le> st \<longrightarrow>
            \<not> IsHealthy h' b \<and> h' = SetHealthy h b False)
       \<and> (\<forall>err. get target = GetError err \<longrightarrow>
            \<not> IsHealthy h' b \<and> h' = SetHealthy h b False)"
  using assms
  by (auto simp: probe_def Let_def IsHealthy_def SetHealthy_def split: get_result.splits if_splits)

theorem probe_sets_healthy_witness:
  "IsHealthy (snd (probe example_monitor (\<lambda>u. GetResponse 204) down_heap 0)) 0
   \<and> InfoRecovered ''http://b1:80'' \<in> set (fst (probe example_monitor (\<lambda>u. GetResponse 204) down_heap 0))
   \<and> \<not> IsHealthy (snd (probe example_monitor (\<lambda>u. GetResponse 503) (heap_of [example_backend ''b1:80'' 1]) 0)) 0
   \<and> \<not> IsHealthy (snd (probe example_monitor (\<lambda>u. GetError ''timeout'') (heap_of [example_backend ''b1:80'' 1]) 0)) 0"
  using probe_sets_healthy [where m = example_monitor and get = "\<lambda>u. GetResponse 204" and h = down_heap and b = 0, OF surjective_pairing refl]
        probe_sets_healthy [where m = example_monitor and get = "\<lambda>u. GetResponse 503" and h = "heap_of [example_backend ''b1:80'' 1]" and b = 0, OF surjective_pairing refl]
        probe_sets_healthy [where m = example_monitor and get = "\<lambda>u. GetError ''timeout''" and h = "heap_of [example_backend ''b1:80'' 1]" and b = 0, OF surjective_pairing refl]
  by (simp add: down_heap_def heap_of_def example_backend_def IsHealthy_def SetHealthy_def)

section \<open>Upstream failure\<close>

lemma Picker_Done_DecConns: "Picker_Done pk h b = DecConns h b"
  by (cases pk) (simp_all add: RoundRobin_Done_def WeightedRoundRobin_Done_def LeastConnections_Done_def)

text \<open>
  C2. When the error handler runs for a request that carries a backend in its context,
  \<open>Done\<close> is called once, on the gateway's picker and with that backend (one active
  connection is released), the backend is marked unhealthy, its request counter and its
  error counter each go up by one, no other backend changes, and the client gets status
  502 with the body "bad gateway" and a newline.
\<close>

theorem errorHandler_demotes:
  assumes "ctx_backend r = Some b"
      and "errorHandler s w r err = (w', s')"
  shows "calls s' = calls s @ [CalledDone (picker (gw s)) b]
       \<and> \<not> IsHealthy (heap s') b
       \<and> TotalRequests (heap s') b = TotalRequests (heap s) b + 1
       \<and> TotalErrors (heap s') b = TotalErrors (heap s) b + 1
       \<and> ActiveConns (heap s') b = ActiveConns (heap s) b - 1
       \<and> (\<forall>b'. b' \<noteq> b \<longrightarrow> heap s' b' = heap s b')
       \<and> StatusCode w' = 502
       \<and> Body w' = Body w @ ''bad gateway'' @ [CHR 0x0A]"
  using assms
  by (auto simp: errorHandler_def Let_def Picker_Done_DecConns DecConns_def SetHealthy_def
        IncRequests_def IncErrors_def IsHealthy_def TotalRequests_def TotalErrors_def
        ActiveConns_def http_Error_def StatusBadGateway_def)

theorem errorHandler_demotes_witness:
  "calls (snd (errorHandler example_world new_writer (example_request\<lparr>ctx_backend := Some 0\<rparr>) ''dial tcp: connection refused''))
     = [CalledDone 0 0]
   \<and> \<not> IsHealthy (heap (snd (errorHandler example_world new_writer (example_request\<lparr>ctx_backend := Some 0\<rparr>) ''dial tcp: connection refused''))) 0
   \<and> TotalErrors (heap (snd (errorHandler example_world new_writer (example_request\<lparr>ctx_backend := Some 0\<rparr>) ''dial tcp: connection refused''))) 0 = 1
   \<and> StatusCode (fst (errorHandler example_world new_writer (example_request\<lparr>ctx_backend := Some 0\<rparr>) ''dial tcp: connection refused'')) = 502
   \<and> Body (fst (errorHandler example_world new_writer (example_request\<lparr>ctx_backend := Some 0\<rparr>) ''dial tcp: connection refused'')) = ''bad gateway'' @ [CHR 0x0A]"
  using errorHandler_demotes [where r = "example_request\<lparr>ctx_backend := Some 0\<rparr>" and b = 0 and s = example_world and w = new_writer and err = "''dial tcp: connection refused''", OF _ surjective_pairing]
  by (simp add: example_world_def example_request_def new_writer_def heap_of_def example_backend_def TotalErrors_def)

section \<open>Selection and the health and block flags\<close>

lemma lc_scan_healthy:
  "lc_scan h bs best = Some b \<Longrightarrow> (\<forall>x. best = Some x \<longrightarrow> IsHealthy h x) \<Longrightarrow> IsHealthy h b"
  by (induction bs arbitrary: best) (auto split: if_splits)

lemma RoundRobin_Next_selectable:
  "RoundRobin_Next r h = (Inr b, r', h') \<Longrightarrow> b \<in> set (rr_backends r) \<and> IsHealthy h b \<and> \<not> IsBlocked h b"
proof -
  assume a: "RoundRobin_Next r h = (Inr b, r', h')"
  let ?hs = "healthySubset h (rr_backends r)"
  from a have ne: "?hs \<noteq> []" 
    by (auto simp: RoundRobin_Next_def Let_def split: if_splits)
  from a ne have "b = ?hs ! (unat (counter r) mod length ?hs)"
    by (auto simp: RoundRobin_Next_def Let_def split: if_splits)
  moreover from ne have "unat (counter r) mod length ?hs < length ?hs" by simp
  ultimately have "b \<in> set ?hs" by (metis nth_mem)
  then show ?thesis by (auto simp: healthySubset_def)
qed

text \<open>
  C1. A backend that is healthy and blocked, the state \<open>Registry.Block\<close> leaves the
  registry's backend in:
  \<open>LeastConnections.Next\<close> and \<open>WeightedRoundRobin.Next\<close> return it, since both test
  \<open>IsHealthy\<close> only; \<open>RoundRobin.Next\<close>, which goes through \<open>healthySubset\<close>, does not.
\<close>

theorem blocked_backend_selected:
  "fst (Registry_Block example_registry ''http://b1:80'') = None
   \<and> objs (snd (Registry_Block example_registry ''http://b1:80'')) = blocked_heap
   \<and> IsHealthy blocked_heap 0 \<and> IsBlocked blocked_heap 0
   \<and> fst (LeastConnections_Next (NewLeastConnections [0]) blocked_heap) = Inr 0
   \<and> fst (WeightedRoundRobin_Next (NewWeightedRoundRobin [0]) blocked_heap) = Inr 0
   \<and> fst (RoundRobin_Next (NewRoundRobin [0]) blocked_heap) = Inl ErrNoHealthyBackend"
proof -
  have a: "fst (Registry_Block example_registry ''http://b1:80'') = None
     \<and> objs (snd (Registry_Block example_registry ''http://b1:80'')) = blocked_heap"
    by (simp add: Registry_Block_def Registry_find_def example_registry_def blocked_heap_def
          Let_def heap_of_def example_backend_def snapshot_def)
  have b: "IsHealthy blocked_heap 0 \<and> IsBlocked blocked_heap 0
     \<and> fst (LeastConnections_Next (NewLeastConnections [0]) blocked_heap) = Inr 0
     \<and> fst (WeightedRoundRobin_Next (NewWeightedRoundRobin [0]) blocked_heap) = Inr 0
     \<and> fst (RoundRobin_Next (NewRoundRobin [0]) blocked_heap) = Inl ErrNoHealthyBackend"
    by (simp add: blocked_heap_def heap_of_def example_backend_def SetBlocked_def IsHealthy_def
          IsBlocked_def LeastConnections_Next_def NewLeastConnections_def
          WeightedRoundRobin_Next_def NewWeightedRoundRobin_def wrr_select_def wrr_collect_def
          wrr_raise_def wrr_best_def RoundRobin_Next_def NewRoundRobin_def healthySubset_def
          Let_def)
  from a b show ?thesis by (intro conjI) (elim conjE, assumption)+
qed

section \<open>Round robin\<close>

lemma healthySubset_IncConns [simp]: "healthySubset (IncConns h b) bs = healthySubset h bs"
  by (auto simp: healthySubset_def IncConns_def IsHealthy_def IsBlocked_def intro: filter_cong)

lemma RoundRobin_Next_eq:
  "RoundRobin_Next r h =
     (let hs = healthySubset h (rr_backends r) in
      if hs = [] then (Inl ErrNoHealthyBackend, r, h)
      else (Inr (hs ! (unat (counter r) mod length hs)), r\<lparr>counter := counter r + 1\<rparr>,
            IncConns h (hs ! (unat (counter r) mod length hs))))"
  by (simp add: RoundRobin_Next_def Let_def)

lemma rr_run_results:
  assumes "healthySubset h (rr_backends r) = hs" and "hs \<noteq> []"
  shows "fst (rr_run n r h) = map (\<lambda>i. Inr (hs ! (unat (counter r + of_nat i) mod length hs))) [0..<n]"
  using assms
proof (induction n arbitrary: r h)
  case 0
  then show ?case by simp
next
  case (Suc n)
  let ?b = "hs ! (unat (counter r) mod length hs)"
  have nx: "RoundRobin_Next r h = (Inr ?b, r\<lparr>counter := counter r + 1\<rparr>, IncConns h ?b)"
    using Suc.prems by (simp add: RoundRobin_Next_eq Let_def)
  have ih: "fst (rr_run n (r\<lparr>counter := counter r + 1\<rparr>) (IncConns h ?b)) =
      map (\<lambda>i. Inr (hs ! (unat (counter r + 1 + of_nat i) mod length hs))) [0..<n]"
    using Suc.IH [of "IncConns h ?b" "r\<lparr>counter := counter r + 1\<rparr>"] Suc.prems by simp
  have "[0..<Suc n] = 0 # map Suc [0..<n]"
    by (simp add: upt_conv_Cons map_Suc_upt del: upt_Suc)
  then show ?case
    using nx ih by (simp add: split_beta o_def ac_simps del: upt_Suc)
qed

lemma count_residue_block:
  fixes k t a :: nat
  assumes "t < k"
  shows "length (filter (\<lambda>i. i mod k = t) [a..<a + k]) = 1"
proof (induction a)
  case 0
  have "filter (\<lambda>i. i mod k = t) [0..<k] = filter (\<lambda>i. i = t) [0..<k]"
    by (rule filter_cong) auto
  also have "\<dots> = [t]"
    using assms
  proof (induction k)
    case 0
    then show ?case by simp
  next
    case (Suc k)
    then show ?case by (cases "t = k") auto
  qed
  finally show ?case by simp
next
  case (Suc a)
  have "[a..<a + k] = a # [Suc a..<a + k]"
    using assms by (simp add: upt_conv_Cons)
  moreover have "[Suc a..<Suc a + k] = [Suc a..<a + k] @ [a + k]"
    using assms by simp
  moreover have "(a + k) mod k = a mod k" by simp
  ultimately show ?case using Suc by auto
qed

lemma count_residue_blocks:
  fixes k t a n :: nat
  assumes "t < k"
  shows "length (filter (\<lambda>i. i mod k = t) [a..<a + n * k]) = n"
proof (induction n)
  case 0
  then show ?case by simp
next
  case (Suc n)
  have "[a..<a + Suc n * k] = [a..<a + n * k] @ [a + n * k..<a + n * k + k]"
  proof -
    have e: "a + Suc n * k = a + n * k + k" by simp
    show ?thesis
      unfolding e by (rule upt_add_eq_append) simp
  qed
  then show ?case
    using Suc count_residue_block [OF assms, of "a + n * k"] by simp
qed

lemma count_list_map_filter:
  "count_list (map f xs) y = length (filter (\<lambda>x. f x = y) xs)"
  by (induction xs) auto

lemma shifted_upt: "map (\<lambda>i. c + i) [j..<j + m] = [c + j..<c + j + (m::nat)]"
proof (induction m)
  case 0
  then show ?case by simp
next
  case (Suc m)
  have "[j..<j + Suc m] = [j..<j + m] @ [j + m]" by simp
  moreover have "[c + j..<c + j + Suc m] = [c + j..<c + j + m] @ [c + j + m]" by simp
  ultimately show ?case using Suc by (simp add: add.assoc)
qed

lemma count_residue_shifted:
  fixes k t c j n :: nat
  assumes "t < k"
  shows "length (filter (\<lambda>i. (c + i) mod k = t) [j..<j + n * k]) = n"
proof -
  have "length (filter (\<lambda>i. (c + i) mod k = t) [j..<j + n * k]) =
        length (filter (\<lambda>i. i mod k = t) (map (\<lambda>i. c + i) [j..<j + n * k]))"
    by (simp add: filter_map o_def)
  also have "\<dots> = length (filter (\<lambda>i. i mod k = t) [c + j..<c + j + n * k])"
    by (simp only: shifted_upt)
  also have "\<dots> = n"
    by (rule count_residue_blocks [OF assms])
  finally show ?thesis .
qed

lemma unat_counter_add:
  fixes c :: "64 word"
  assumes "unat c + i < 2 ^ 64"
  shows "unat (c + of_nat i) = unat c + i"
proof -
  have "i < 2 ^ 64" using assms by simp
  then have "unat (of_nat i :: 64 word) = i"
    by (simp add: unat_of_nat)
  then show ?thesis
    using assms by (simp add: unat_word_ariths)
qed

lemma window_map_upt:
  "window j m (map f [0..<j + m]) = map f [j..<j + m]"
  by (simp add: window_def drop_map take_map)

lemma late_rr_selectable: "healthySubset three_backends (rr_backends late_rr) = [0, 1, 2]"
  by (simp add: healthySubset_def three_backends_def late_rr_def heap_of_def example_backend_def
        IsHealthy_def IsBlocked_def)

text \<open>
  C5, as the claim states it, fails where the counter wraps around: a picker over three
  selectable backends whose counter stands at \<open>2^64 - 2\<close> selects the third backend, then
  the first one twice, and the second one not at all in that window of three calls.
\<close>

theorem rr_window_wraps:
  "fst (rr_run 3 late_rr three_backends) = [Inr 2, Inr 0, Inr 0]
   \<and> count_list (window 0 (1 * 3) (fst (rr_run (0 + 1 * 3) late_rr three_backends))) (Inr 1) = 0"
proof -
  have "fst (rr_run 3 late_rr three_backends) =
      map (\<lambda>i. Inr ([0, 1, 2] ! (unat (counter late_rr + of_nat i) mod length [0, 1, 2 :: nat])))
        [0..<3]"
    by (rule rr_run_results [OF late_rr_selectable]) simp
  also have "\<dots> = [Inr 2, Inr 0, Inr 0]"
  proof -
    have u: "[0..<3] = [0, 1, 2 :: nat]" by (simp add: numeral_3_eq_3)
    show ?thesis unfolding u by (simp add: late_rr_def)
  qed
  finally have e: "fst (rr_run 3 late_rr three_backends) = [Inr 2, Inr 0, Inr 0]" .
  then show ?thesis by (simp add: window_def)
qed

text \<open>
  C5, amended. With \<open>hs\<close> the selectable subset of the picker's list in list order:
  \<open>Next\<close> fails with \<open>ErrNoHealthyBackend\<close> when \<open>hs\<close> is empty; otherwise it stores the
  incremented counter \<open>c\<close>, returns \<open>hs ! ((c - 1) mod |hs|)\<close> and adds one to that
  backend's active connections. When the \<open>k\<close> selectable backends are \<open>k\<close> different
  objects and the counter does not pass \<open>2^64\<close> before the window ends, every window of
  \<open>n * k\<close> consecutive calls (after any number \<open>j\<close> of earlier calls) selects each of them
  exactly \<open>n\<close> times.
\<close>

theorem rr_window:
  assumes hs: "healthySubset h (rr_backends r) = hs"
  shows "(hs = [] \<longrightarrow> RoundRobin_Next r h = (Inl ErrNoHealthyBackend, r, h))
       \<and> (hs \<noteq> [] \<longrightarrow>
            (\<exists>c. c = counter r + 1
               \<and> RoundRobin_Next r h =
                   (Inr (hs ! (unat (c - 1) mod length hs)), r\<lparr>counter := c\<rparr>,
                    IncConns h (hs ! (unat (c - 1) mod length hs)))))
       \<and> (hs \<noteq> [] \<and> distinct hs \<and> b \<in> set hs
            \<and> unat (counter r) + j + n * length hs \<le> 2 ^ 64 \<longrightarrow>
            count_list (window j (n * length hs) (fst (rr_run (j + n * length hs) r h))) (Inr b) = n)"
proof (intro conjI impI)
  assume "hs = []"
  then show "RoundRobin_Next r h = (Inl ErrNoHealthyBackend, r, h)"
    using hs by (simp add: RoundRobin_Next_def)
next
  assume "hs \<noteq> []"
  then show "\<exists>c. c = counter r + 1
               \<and> RoundRobin_Next r h =
                   (Inr (hs ! (unat (c - 1) mod length hs)), r\<lparr>counter := c\<rparr>,
                    IncConns h (hs ! (unat (c - 1) mod length hs)))"
    using hs by (simp add: RoundRobin_Next_def Let_def)
next
  assume a: "hs \<noteq> [] \<and> distinct hs \<and> b \<in> set hs
            \<and> unat (counter r) + j + n * length hs \<le> 2 ^ 64"
  let ?k = "length hs"
  let ?m = "n * ?k"
  let ?c = "unat (counter r)"
  from a have ne: "hs \<noteq> []" and d: "distinct hs" and b: "b \<in> set hs"
    and nw: "?c + j + ?m \<le> 2 ^ 64" by simp_all
  from b obtain t where t: "t < ?k" "hs ! t = b"
    by (auto simp: in_set_conv_nth)
  have res: "fst (rr_run (j + ?m) r h) =
      map (\<lambda>i. Inr (hs ! (unat (counter r + of_nat i) mod ?k))) [0..<j + ?m]"
    by (rule rr_run_results [OF hs ne])
  have "count_list (window j ?m (fst (rr_run (j + ?m) r h))) (Inr b) =
        length (filter (\<lambda>i. (Inr (hs ! (unat (counter r + of_nat i) mod ?k)) :: error + ptr) = Inr b)
                  [j..<j + ?m])"
    by (simp only: res window_map_upt count_list_map_filter)
  also have "\<dots> = length (filter (\<lambda>i. (?c + i) mod ?k = t) [j..<j + ?m])"
  proof -
    have "filter (\<lambda>i. (Inr (hs ! (unat (counter r + of_nat i) mod ?k)) :: error + ptr) = Inr b)
             [j..<j + ?m] =
          filter (\<lambda>i. (?c + i) mod ?k = t) [j..<j + ?m]"
    proof (rule filter_cong [OF refl])
      fix i assume "i \<in> set [j..<j + ?m]"
      then have "?c + i < 2 ^ 64" using nw by simp
      then have u: "unat (counter r + of_nat i) = ?c + i"
        by (rule unat_counter_add)
      have lt: "(?c + i) mod ?k < ?k" using ne by simp
      show "((Inr (hs ! (unat (counter r + of_nat i) mod ?k)) :: error + ptr) = Inr b) =
            ((?c + i) mod ?k = t)"
        using nth_eq_iff_index_eq [OF d lt t(1)] t(2) by (simp add: u)
    qed
    then show ?thesis by simp
  qed
  also have "\<dots> = n"
    by (rule count_residue_shifted [OF t(1)])
  finally show "count_list (window j ?m (fst (rr_run (j + ?m) r h))) (Inr b) = n" .
qed

lemma three_selectable: "healthySubset three_backends [0, 1, 2] = [0, 1, 2]"
  by (simp add: healthySubset_def three_backends_def heap_of_def example_backend_def
        IsHealthy_def IsBlocked_def)

theorem rr_window_witness:
  "RoundRobin_Next (NewRoundRobin [0, 1, 2]) three_backends =
     (Inr 0, \<lparr>rr_backends = [0, 1, 2], counter = 1\<rparr>, IncConns three_backends 0)
   \<and> count_list (window 2 (2 * 3) (fst (rr_run (2 + 2 * 3) (NewRoundRobin [0, 1, 2]) three_backends))) (Inr 1) = 2"
proof -
  have hs: "healthySubset three_backends (rr_backends (NewRoundRobin [0, 1, 2])) = [0, 1, 2]"
    using three_selectable by (simp add: NewRoundRobin_def)
  show ?thesis
    using rr_window [OF hs, where b = 1 and j = 2 and n = 2]
    by (simp add: NewRoundRobin_def)
qed

section \<open>Request rewriting\<close>

lemma canon_keys:
  "CanonicalMIMEHeaderKey ''Te'' = ''Te''"
  "CanonicalMIMEHeaderKey ''Trailers'' = ''Trailers''"
  "CanonicalMIMEHeaderKey ''X-Forwarded-For'' = ''X-Forwarded-For''"
  "CanonicalMIMEHeaderKey ''X-Real-IP'' = ''X-Real-Ip''"
  "CanonicalMIMEHeaderKey ''X-Forwarded-Host'' = ''X-Forwarded-Host''"
  "CanonicalMIMEHeaderKey ''X-Forwarded-Proto'' = ''X-Forwarded-Proto''"
  by code_simp+

lemma director_success:
  assumes "Picker_Next (pickers s (picker (gw s))) (heap s) = (Inr b, pk, h)"
  shows "director s req =
     (let hd2 = Header_Del (Header_Del (Header req) ''Te'') ''Trailers'';
          prior = Header_Get hd2 ''X-Forwarded-For'';
          hd3 = (if prior \<noteq> []
                 then Header_Set hd2 ''X-Forwarded-For'' (prior @ '', '' @ RemoteAddr req)
                 else Header_Set hd2 ''X-Forwarded-For'' (RemoteAddr req));
          hd6 = Header_Set (Header_Set (Header_Set hd3 ''X-Real-IP'' (RemoteAddr req))
                   ''X-Forwarded-Host'' (req_Host req)) ''X-Forwarded-Proto'' (requestScheme req)
      in (req\<lparr>req_URL := (req_URL req)\<lparr>Scheme := Scheme (URL (h b)), Host := Host (URL (h b))\<rparr>,
               req_Host := Host (URL (h b)), Header := hd6, ctx_backend := Some b\<rparr>,
          s\<lparr>heap := h, pickers := (pickers s)((picker (gw s)) := pk),
            calls := calls s @ [CalledNext (picker (gw s)) (Inr b)],
            logs := logs s @ [DebugProxying (RawURL (h b))]\<rparr>))"
  using assms by (simp add: director_def Let_def requestScheme_def)

lemma example_pick:
  "Picker_Next (pickers example_world (picker (gw example_world))) (heap example_world) =
     (Inr 0, PRoundRobin \<lparr>rr_backends = [0, 1], counter = 1\<rparr>, IncConns (heap example_world) 0)"
  by (simp add: example_world_def RoundRobin_Next_def NewRoundRobin_def healthySubset_def
        heap_of_def example_backend_def IsHealthy_def IsBlocked_def Let_def)

lemma fold_Header_Del:
  "fold (\<lambda>f hdr'. Header_Del hdr' f) ks hdr key =
     (if key \<in> CanonicalMIMEHeaderKey ` set ks then None else hdr key)"
  by (induction ks arbitrary: hdr) (auto simp: Header_Del_def)

lemma hop_keys:
  "map CanonicalMIMEHeaderKey hopHeaders =
     [''Connection'', ''Proxy-Connection'', ''Keep-Alive'', ''Proxy-Authenticate'',
      ''Proxy-Authorization'', ''Te'', ''Trailer'', ''Transfer-Encoding'', ''Upgrade'']"
  by code_simp

lemma more_keys:
  "CanonicalMIMEHeaderKey ''Connection'' = ''Connection''"
  "CanonicalMIMEHeaderKey ''Upgrade'' = ''Upgrade''"
  "CanonicalMIMEHeaderKey ''User-Agent'' = ''User-Agent''"
  by code_simp+

lemma removeHopByHopHeaders_at:
  "removeHopByHopHeaders hdr key =
     (if key \<in> set (map CanonicalMIMEHeaderKey hopHeaders)
         \<or> key \<in> CanonicalMIMEHeaderKey ` set (connection_fields hdr)
      then None else hdr key)"
  by (simp add: removeHopByHopHeaders_def fold_Header_Del)

lemma director_keeps:
  assumes "Picker_Next (pickers s (picker (gw s))) (heap s) = (Inr b, pk, h)"
      and "key \<notin> {''Te'', ''Trailers'', ''X-Forwarded-For'', ''X-Real-Ip'', ''X-Forwarded-Host'',
                   ''X-Forwarded-Proto''}"
  shows "Header (fst (director s req)) key = Header req key"
  using assms(2) unfolding director_success [OF assms(1)]
  by (simp add: Let_def Header_Set_def Header_Del_def canon_keys)

lemma director_Connection:
  assumes "Picker_Next (pickers s (picker (gw s))) (heap s) = (Inr b, pk, h)"
  shows "upgradeType (Header (fst (director s req))) = upgradeType (Header req)"
    and "connection_fields (Header (fst (director s req))) = connection_fields (Header req)"
  by (simp_all add: upgradeType_def connection_fields_def Header_index_def Header_Get_def
        more_keys director_keeps [OF assms])

lemma director_sets:
  assumes "Picker_Next (pickers s (picker (gw s))) (heap s) = (Inr b, pk, h)"
  shows "Header (fst (director s req)) ''X-Forwarded-For'' =
           Some [if Header_Get (Header req) ''X-Forwarded-For'' \<noteq> []
                 then Header_Get (Header req) ''X-Forwarded-For'' @ '', '' @ RemoteAddr req
                 else RemoteAddr req]"
    and "Header (fst (director s req)) ''X-Real-Ip'' = Some [RemoteAddr req]"
    and "Header (fst (director s req)) ''X-Forwarded-Host'' = Some [req_Host req]"
    and "Header (fst (director s req)) ''X-Forwarded-Proto'' =
           Some [if TLS req then ''https'' else ''http'']"
    and "Header (fst (director s req)) ''Te'' = None"
    and "Header (fst (director s req)) ''Trailers'' = None"
    and "ctx_backend (fst (director s req)) = Some b"
    and "snd (director s req) =
           s\<lparr>heap := h, pickers := (pickers s)((picker (gw s)) := pk),
             calls := calls s @ [CalledNext (picker (gw s)) (Inr b)],
             logs := logs s @ [DebugProxying (RawURL (h b))]\<rparr>"
  unfolding director_success [OF assms]
  by (simp_all add: Let_def Header_Get_def Header_Set_def Header_Del_def canon_keys requestScheme_def)

lemma Header_Get_Join:
  assumes "length (Header_Values hdr key) \<le> 1"
  shows "strings_Join (Header_Values hdr key) sep = Header_Get hdr key"
proof (cases "hdr (CanonicalMIMEHeaderKey key)")
  case None
  then show ?thesis by (simp add: Header_Values_def Header_index_def Header_Get_def strings_Join_def)
next
  case (Some vs)
  with assms have "length vs \<le> 1" by (simp add: Header_Values_def Header_index_def)
  then have "vs = [] \<or> (\<exists>v. vs = [v])" by (cases vs) auto
  with Some show ?thesis
    by (auto simp: Header_Values_def Header_index_def Header_Get_def strings_Join_def)
qed

text \<open>
  C8, as the claim states it, fails in several ways. The director tests the value of
  \<open>X-Forwarded-For\<close> against the empty string, not the presence of the header: a header
  that is present with an empty value is set to the client's address alone, where the
  claim has the prior value followed by a comma, a space and the address. The director
  reads the header with \<open>Get\<close>, so of a header with two values the second one is lost.
  And the request the director has rewritten is not yet the request that is sent
  upstream: the reverse proxy then appends the host of the client's address to
  \<open>X-Forwarded-For\<close> once more, sets \<open>Te\<close> to "trailers" again when the client's \<open>Te\<close>
  header lists that token, deletes the headers that the client's \<open>Connection\<close> header
  names, among them those the director has just set, and sends no request at all when
  the client asks for an upgrade to a protocol with an unprintable name.
\<close>

theorem upstream_request_differs:
  "fst (Picker_Next (pickers example_world (picker (gw example_world))) (heap example_world)) = Inr 0
   \<and> Header_Values (Header request_empty_xff) ''X-Forwarded-For'' = [[]]
   \<and> Header_Values (Header (fst (director example_world request_empty_xff))) ''X-Forwarded-For''
       = [''10.0.0.7:51234'']
   \<and> Header_Values (Header (fst (director example_world request_two_xff))) ''X-Forwarded-For''
       = [''198.51.100.1, 10.0.0.7:51234'']
   \<and> upstream_values (ServeHTTP_outreq example_world new_writer example_request) ''X-Forwarded-For''
       = Some [''10.0.0.7:51234, 10.0.0.7'']
   \<and> upstream_values (ServeHTTP_outreq example_world new_writer request_te_trailers) ''Te''
       = Some [''trailers'']
   \<and> upstream_values (ServeHTTP_outreq example_world new_writer request_connection) ''X-Real-IP''
       = Some []
   \<and> upstream_values (ServeHTTP_outreq example_world new_writer request_upgrade) ''X-Real-IP''
       = None"
  by code_simp

text \<open>
  C8, amended. For a request for which the picker returns a backend, whose
  \<open>X-Forwarded-For\<close> header has at most one value, whose \<open>Connection\<close> header names none
  of \<open>X-Forwarded-For\<close>, \<open>X-Real-IP\<close>, \<open>X-Forwarded-Host\<close> and \<open>X-Forwarded-Proto\<close>, and whose
  upgrade protocol, if it asks for one, has a printable name: the request as the
  director has rewritten it carries \<open>X-Forwarded-For\<close> equal to the prior value followed
  by a comma, a space and the client's remote address when the header was present with a
  value that is not empty, and equal to the remote address alone otherwise; \<open>X-Real-IP\<close>
  equal to the remote address; \<open>X-Forwarded-Host\<close> equal to the \<open>Host\<close> of the inbound
  request; \<open>X-Forwarded-Proto\<close> equal to "https" when the request came over TLS and to
  "http" otherwise; no \<open>Te\<close> and no \<open>Trailers\<close> header; and the backend in its context.
  The reverse proxy then sends a request upstream, which carries the same \<open>X-Real-IP\<close>,
  \<open>X-Forwarded-Host\<close> and \<open>X-Forwarded-Proto\<close>, no \<open>Trailers\<close> header, an \<open>X-Forwarded-For\<close>
  that begins with the value above, and no \<open>Te\<close> header when the \<open>Te\<close> header of the
  inbound request does not list "trailers". What follows that value in \<open>X-Forwarded-For\<close>,
  and \<open>Te\<close> when the client lists "trailers", are left open.
\<close>

theorem upstream_headers:
  assumes pick: "Picker_Next (pickers s (picker (gw s))) (heap s) = (Inr b, pk, h)"
      and one: "length (Header_Values (Header req) ''X-Forwarded-For'') \<le> 1"
      and conn: "\<forall>sf\<in>set (connection_fields (Header req)).
                   CanonicalMIMEHeaderKey sf \<notin>
                     set (map CanonicalMIMEHeaderKey
                            [''X-Forwarded-For'', ''X-Real-IP'', ''X-Forwarded-Host'',
                             ''X-Forwarded-Proto''])"
      and up: "IsPrint (upgradeType (Header req))"
      and dir: "director s req = (req', s')"
      and prior: "prior = strings_Join (Header_Values (Header req) ''X-Forwarded-For'') '', ''"
  shows "Header_Values (Header req') ''X-Forwarded-For'' =
           [if prior \<noteq> [] then prior @ '', '' @ RemoteAddr req else RemoteAddr req]
       \<and> Header_Values (Header req') ''X-Real-IP'' = [RemoteAddr req]
       \<and> Header_Values (Header req') ''X-Forwarded-Host'' = [req_Host req]
       \<and> Header_Values (Header req') ''X-Forwarded-Proto'' = [if TLS req then ''https'' else ''http'']
       \<and> Header req' (CanonicalMIMEHeaderKey ''Te'') = None
       \<and> Header req' (CanonicalMIMEHeaderKey ''Trailers'') = None
       \<and> ctx_backend req' = Some b
       \<and> (\<exists>out. ServeHTTP_outreq s rw req = (Inr out, s')
            \<and> (\<exists>appended. Header_Values (Header out) ''X-Forwarded-For'' =
                  [(if prior \<noteq> [] then prior @ '', '' @ RemoteAddr req else RemoteAddr req)
                   @ appended])
            \<and> Header_Values (Header out) ''X-Real-IP'' = [RemoteAddr req]
            \<and> Header_Values (Header out) ''X-Forwarded-Host'' = [req_Host req]
            \<and> Header_Values (Header out) ''X-Forwarded-Proto'' =
                  [if TLS req then ''https'' else ''http'']
            \<and> Header out (CanonicalMIMEHeaderKey ''Trailers'') = None
            \<and> (\<not> HeaderValuesContainsToken (Header_index (Header req) ''Te'') ''trailers''
                  \<longrightarrow> Header out (CanonicalMIMEHeaderKey ''Te'') = None))"
proof -
  let ?D = "if prior \<noteq> [] then prior @ '', '' @ RemoteAddr req else RemoteAddr req"
  have pg: "Header_Get (Header req) ''X-Forwarded-For'' = prior"
    unfolding prior by (rule Header_Get_Join [OF one, symmetric])
  have r: "req' = fst (director s req)" and s': "s' = snd (director s req)"
    using dir by simp_all
  note ds = director_sets [OF pick, of req, folded r, unfolded pg]
  have dl: "Header_Values (Header req') ''X-Forwarded-For'' = [?D]"
       "Header_Values (Header req') ''X-Real-IP'' = [RemoteAddr req]"
       "Header_Values (Header req') ''X-Forwarded-Host'' = [req_Host req]"
       "Header_Values (Header req') ''X-Forwarded-Proto'' = [if TLS req then ''https'' else ''http'']"
       "Header req' (CanonicalMIMEHeaderKey ''Te'') = None"
       "Header req' (CanonicalMIMEHeaderKey ''Trailers'') = None"
    using ds by (simp_all add: Header_Values_def Header_index_def canon_keys)
  have ut: "upgradeType (Header req') = upgradeType (Header req)"
    and cf: "connection_fields (Header req') = connection_fields (Header req)"
    using director_Connection [OF pick, of req] r by simp_all
  define hd1 where "hd1 = removeHopByHopHeaders (Header req')"
  define hd2 where "hd2 =
     (if HeaderValuesContainsToken (Header_index (Header req) ''Te'') ''trailers''
      then Header_Set hd1 ''Te'' ''trailers'' else hd1)"
  define hd3 where "hd3 =
     (if upgradeType (Header req) \<noteq> []
      then Header_Set (Header_Set hd2 ''Connection'' ''Upgrade'') ''Upgrade''
             (upgradeType (Header req))
      else hd2)"
  define hd4 where "hd4 =
     (case SplitHostPort (RemoteAddr req) of
        None \<Rightarrow> hd3
      | Some (clientIP, port) \<Rightarrow>
          (case hd3 ''X-Forwarded-For'' of
             None \<Rightarrow> Header_Set hd3 ''X-Forwarded-For'' clientIP
           | Some [] \<Rightarrow> hd3
           | Some (v # vs) \<Rightarrow>
               Header_Set hd3 ''X-Forwarded-For''
                 (strings_Join (v # vs) '', '' @ '', '' @ clientIP)))"
  define hd5 where "hd5 =
     (if hd4 ''User-Agent'' = None then Header_Set hd4 ''User-Agent'' [] else hd4)"
  have out: "ServeHTTP_outreq s rw req = (Inr (req'\<lparr>Header := hd5\<rparr>), s')"
    unfolding ServeHTTP_outreq_def dir prod.case Let_def ut
      hd5_def hd4_def hd3_def hd2_def hd1_def
    by (simp only: up not_True_eq_False if_False)
  have ck: "\<And>key. key \<in> {''X-Forwarded-For'', ''X-Real-Ip'', ''X-Forwarded-Host'',
                          ''X-Forwarded-Proto''}
              \<Longrightarrow> key \<notin> CanonicalMIMEHeaderKey ` set (connection_fields (Header req))"
    using conn by (auto simp: canon_keys)
  have h1: "hd1 ''X-Forwarded-For'' = Some [?D]"
           "hd1 ''X-Real-Ip'' = Some [RemoteAddr req]"
           "hd1 ''X-Forwarded-Host'' = Some [req_Host req]"
           "hd1 ''X-Forwarded-Proto'' = Some [if TLS req then ''https'' else ''http'']"
           "hd1 ''Trailers'' = None"
           "hd1 ''Te'' = None"
    unfolding hd1_def using ds ck by (simp_all add: removeHopByHopHeaders_at hop_keys cf)
  have h2: "hd2 ''X-Forwarded-For'' = Some [?D]"
           "hd2 ''X-Real-Ip'' = Some [RemoteAddr req]"
           "hd2 ''X-Forwarded-Host'' = Some [req_Host req]"
           "hd2 ''X-Forwarded-Proto'' = Some [if TLS req then ''https'' else ''http'']"
           "hd2 ''Trailers'' = None"
           "\<not> HeaderValuesContainsToken (Header_index (Header req) ''Te'') ''trailers''
              \<Longrightarrow> hd2 ''Te'' = None"
    unfolding hd2_def using h1 by (simp_all add: Header_Set_def canon_keys)
  have h3: "hd3 ''X-Forwarded-For'' = Some [?D]"
           "hd3 ''X-Real-Ip'' = Some [RemoteAddr req]"
           "hd3 ''X-Forwarded-Host'' = Some [req_Host req]"
           "hd3 ''X-Forwarded-Proto'' = Some [if TLS req then ''https'' else ''http'']"
           "hd3 ''Trailers'' = None"
           "\<not> HeaderValuesContainsToken (Header_index (Header req) ''Te'') ''trailers''
              \<Longrightarrow> hd3 ''Te'' = None"
    unfolding hd3_def using h2 by (simp_all add: Header_Set_def more_keys)
  have h4x: "\<exists>appended. hd4 ''X-Forwarded-For'' = Some [?D @ appended]"
  proof (cases "SplitHostPort (RemoteAddr req)")
    case None
    then show ?thesis unfolding hd4_def using h3(1) by simp
  next
    case (Some p)
    obtain clientIP port where "p = (clientIP, port)" by (cases p)
    with Some have "hd4 ''X-Forwarded-For'' = Some [?D @ '', '' @ clientIP]"
      unfolding hd4_def h3(1) by (simp add: Header_Set_def canon_keys strings_Join_def)
    then show ?thesis by blast
  qed
  have k4: "\<And>key. key \<noteq> ''X-Forwarded-For'' \<Longrightarrow> hd4 key = hd3 key"
    unfolding hd4_def
    by (simp add: Header_Set_def canon_keys split: option.splits prod.splits list.splits)
  have h4: "hd4 ''X-Real-Ip'' = Some [RemoteAddr req]"
           "hd4 ''X-Forwarded-Host'' = Some [req_Host req]"
           "hd4 ''X-Forwarded-Proto'' = Some [if TLS req then ''https'' else ''http'']"
           "hd4 ''Trailers'' = None"
           "\<not> HeaderValuesContainsToken (Header_index (Header req) ''Te'') ''trailers''
              \<Longrightarrow> hd4 ''Te'' = None"
    using h3 by (simp_all add: k4)
  have k5: "\<And>key. key \<noteq> ''User-Agent'' \<Longrightarrow> hd5 key = hd4 key"
    unfolding hd5_def by (simp add: Header_Set_def more_keys)
  from h4x obtain appended where "hd4 ''X-Forwarded-For'' = Some [?D @ appended]" ..
  then have a: "hd5 ''X-Forwarded-For'' = Some [?D @ appended]" by (simp add: k5)
  have h5: "hd5 ''X-Real-Ip'' = Some [RemoteAddr req]"
           "hd5 ''X-Forwarded-Host'' = Some [req_Host req]"
           "hd5 ''X-Forwarded-Proto'' = Some [if TLS req then ''https'' else ''http'']"
           "hd5 ''Trailers'' = None"
           "\<not> HeaderValuesContainsToken (Header_index (Header req) ''Te'') ''trailers''
              \<Longrightarrow> hd5 ''Te'' = None"
    using h4 by (simp_all add: k5)
  have u: "(\<exists>appended. Header_Values (Header (req'\<lparr>Header := hd5\<rparr>)) ''X-Forwarded-For'' = [?D @ appended])
       \<and> Header_Values (Header (req'\<lparr>Header := hd5\<rparr>)) ''X-Real-IP'' = [RemoteAddr req]
       \<and> Header_Values (Header (req'\<lparr>Header := hd5\<rparr>)) ''X-Forwarded-Host'' = [req_Host req]
       \<and> Header_Values (Header (req'\<lparr>Header := hd5\<rparr>)) ''X-Forwarded-Proto'' =
            [if TLS req then ''https'' else ''http'']
       \<and> Header (req'\<lparr>Header := hd5\<rparr>) (CanonicalMIMEHeaderKey ''Trailers'') = None
       \<and> (\<not> HeaderValuesContainsToken (Header_index (Header req) ''Te'') ''trailers''
            \<longrightarrow> Header (req'\<lparr>Header := hd5\<rparr>) (CanonicalMIMEHeaderKey ''Te'') = None)"
    using a h5 by (simp add: Header_Values_def Header_index_def canon_keys)
  from dl ds(7) out u show ?thesis by blast
qed

lemma request_gzip_facts:
  "length (Header_Values (Header request_gzip) ''X-Forwarded-For'') \<le> 1"
  "\<forall>sf\<in>set (connection_fields (Header request_gzip)).
     CanonicalMIMEHeaderKey sf \<notin>
       set (map CanonicalMIMEHeaderKey
              [''X-Forwarded-For'', ''X-Real-IP'', ''X-Forwarded-Host'', ''X-Forwarded-Proto''])"
  "IsPrint (upgradeType (Header request_gzip))"
  "\<not> HeaderValuesContainsToken (Header_index (Header request_gzip) ''Te'') ''trailers''"
  "strings_Join (Header_Values (Header request_gzip) ''X-Forwarded-For'') '', '' = ''203.0.113.9''"
  "RemoteAddr request_gzip = ''10.0.0.7:51234''"
  "req_Host request_gzip = ''gateway.example''"
  "TLS request_gzip"
  by code_simp+

theorem upstream_headers_witness:
  "Header_Values (Header (fst (director example_world request_gzip))) ''X-Forwarded-For''
       = [''203.0.113.9, 10.0.0.7:51234'']
   \<and> upstream_values (ServeHTTP_outreq example_world new_writer request_gzip) ''X-Real-IP''
       = Some [''10.0.0.7:51234'']
   \<and> upstream_values (ServeHTTP_outreq example_world new_writer request_gzip) ''X-Forwarded-Host''
       = Some [''gateway.example'']
   \<and> upstream_values (ServeHTTP_outreq example_world new_writer request_gzip) ''X-Forwarded-Proto''
       = Some [''https'']
   \<and> upstream_values (ServeHTTP_outreq example_world new_writer request_gzip) ''Te'' = Some []
   \<and> upstream_values (ServeHTTP_outreq example_world new_writer request_gzip) ''Trailers'' = Some []"
proof -
  note t = upstream_headers [OF example_pick request_gzip_facts(1,2,3) surjective_pairing refl,
      where rw = new_writer, unfolded request_gzip_facts(5,6,7)]
  from t obtain out where
    o: "ServeHTTP_outreq example_world new_writer request_gzip =
          (Inr out, snd (director example_world request_gzip))"
    and v: "Header_Values (Header out) ''X-Real-IP'' = [''10.0.0.7:51234'']"
           "Header_Values (Header out) ''X-Forwarded-Host'' = [''gateway.example'']"
           "Header_Values (Header out) ''X-Forwarded-Proto'' = [if TLS request_gzip then ''https'' else ''http'']"
           "Header out (CanonicalMIMEHeaderKey ''Trailers'') = None"
           "Header out (CanonicalMIMEHeaderKey ''Te'') = None"
    using request_gzip_facts(4) by blast
  from t have d: "Header_Values (Header (fst (director example_world request_gzip))) ''X-Forwarded-For''
       = [''203.0.113.9, 10.0.0.7:51234'']" by simp
  show ?thesis
    using d v request_gzip_facts(8)
    by (simp add: upstream_values_def o Header_Values_def Header_index_def)
qed

section \<open>Swapping the picker while requests are in flight\<close>


lemma Picker_Next_error_heap:
  "Picker_Next pk h = (Inl e, pk', h') \<Longrightarrow> h' = h"
  by (cases pk)
     (auto simp: RoundRobin_Next_def WeightedRoundRobin_Next_def LeastConnections_Next_def Let_def
           split: if_splits option.splits prod.splits)


lemma director_gw: "gw (snd (director s req)) = gw s"
  by (auto simp: director_def Let_def split: prod.splits sum.splits)





section \<open>Constructing backends\<close>

lemma getScheme_slash: "getScheme (CHR ''/'' # r) = Inr ([], CHR ''/'' # r)"
  by (simp add: getScheme_def is_letter_def is_scheme_extra_def)

lemma ctl_takeWhile:
  "\<not> stringContainsCTLByte s \<Longrightarrow> \<not> stringContainsCTLByte (takeWhile P s)"
  by (auto simp: stringContainsCTLByte_def list_ex_iff dest: set_takeWhileD)

lemma HasPrefix_Cons1: "HasPrefix (CHR ''/'' # x) ''/''"
  by (simp add: HasPrefix_def)

lemma HasPrefix_Cons2: "HasPrefix (CHR ''/'' # x) ''//'' = HasPrefix x ''/''"
  by (simp add: HasPrefix_def)

lemma takeWhile_not_slash:
  "\<not> HasPrefix r ''/'' \<Longrightarrow> \<not> HasPrefix (takeWhile P r) ''/''"
  by (cases r) (auto simp: HasPrefix_def)

lemma url_parse_slash:
  assumes "\<not> stringContainsCTLByte (CHR ''/'' # t)" and "\<not> HasPrefix t ''/''"
  shows "\<exists>x. url_parse (CHR ''/'' # t) = Inr x \<and> Scheme x = [] \<and> Host x = []"
proof -
  have a: "\<not> HasPrefix (takeWhile (\<lambda>c. c \<noteq> CHR ''?'') t) ''/''"
    using assms(2) by (rule takeWhile_not_slash)
  show ?thesis
    using assms(1) a
    by (simp add: url_parse_def getScheme_slash strings_Cut_def Let_def empty_URL_def ToLower_def
          HasPrefix_Cons1 HasPrefix_Cons2)
qed

lemma url_Parse_relative:
  assumes "\<not> stringContainsCTLByte (CHR ''/'' # r)" and "\<not> HasPrefix r ''/''"
  shows "\<exists>x. url_Parse (CHR ''/'' # r) = Inr x \<and> Scheme x = [] \<and> Host x = []"
proof -
  let ?t = "takeWhile (\<lambda>c. c \<noteq> CHR ''#'') r"
  have "\<not> stringContainsCTLByte (takeWhile (\<lambda>c. c \<noteq> CHR ''#'') (CHR ''/'' # r))"
    using assms(1) by (rule ctl_takeWhile)
  then have c: "\<not> stringContainsCTLByte (CHR ''/'' # ?t)" by simp
  have p: "\<not> HasPrefix ?t ''/''" using assms(2) by (rule takeWhile_not_slash)
  from url_parse_slash [OF c p] obtain x where
    x: "url_parse (CHR ''/'' # ?t) = Inr x" "Scheme x = []" "Host x = []" by blast
  then show ?thesis
    by (simp add: url_Parse_def strings_Cut_def)
qed

lemma url_Parse_examples:
  "url_Parse ''/api'' = Inr (empty_URL\<lparr>Path := ''/api''\<rparr>)"
  "url_Parse ''localhost:8080'' = Inr (empty_URL\<lparr>Scheme := ''localhost'', Opaque := ''8080''\<rparr>)"
  "url_Parse ''127.0.0.1:9000'' = Inl ''first path segment in URL cannot contain colon''"
  "url_Parse ''http://b1:80'' = Inr (empty_URL\<lparr>Scheme := ''http'', Host := ''b1:80''\<rparr>)"
  by (simp_all add: url_Parse_def url_parse_def strings_Cut_def getScheme_def is_letter_def
        is_scheme_extra_def stringContainsCTLByte_def ToLower_def HasPrefix_def Let_def
        empty_URL_def authority_host_def)

text \<open>
  C7, as the claim states it, fails: \<open>NewBackend\<close> only passes on the error of
  \<open>url.Parse\<close>, which accepts relative references. For the relative path \<open>/api\<close> and for
  the scheme-less \<open>localhost:8080\<close> (read as scheme \<open>localhost\<close> with opaque part \<open>8080\<close>)
  construction succeeds, with a URL that has no host.
\<close>

theorem NewBackend_accepts_relative:
  "NewBackend url_Parse ''/api'' 1 =
     Inr \<lparr>URL = empty_URL\<lparr>Path := ''/api''\<rparr>, RawURL = ''/api'', Weight = 1, healthy = True,
          blocked = False, activeConns = 0, totalRequests = 0, totalErrors = 0\<rparr>
   \<and> NewBackend url_Parse ''localhost:8080'' 1 =
     Inr \<lparr>URL = empty_URL\<lparr>Scheme := ''localhost'', Opaque := ''8080''\<rparr>,
          RawURL = ''localhost:8080'', Weight = 1, healthy = True,
          blocked = False, activeConns = 0, totalRequests = 0, totalErrors = 0\<rparr>
   \<and> Host (empty_URL\<lparr>Path := ''/api''\<rparr>) = []
   \<and> Host (empty_URL\<lparr>Scheme := ''localhost'', Opaque := ''8080''\<rparr>) = []"
  by (simp add: NewBackend_def url_Parse_examples empty_URL_def)

text \<open>
  C7, amended. \<open>NewBackend\<close> fails exactly when the parser rejects the string, whatever
  the parser; when the parser accepts, the backend holds the parsed URL, the string and
  the weight, is healthy and not blocked, and its counters are zero. No check for a
  scheme or a host follows: with \<open>url_Parse\<close>, every string that starts with one slash
  (and has no control byte and no percent sign, whose escapes \<open>url_Parse\<close> does not
  follow) yields a backend whose URL has neither scheme nor host.
\<close>

theorem NewBackend_fails_iff:
  "((\<exists>e. NewBackend parse u w = Inl e) \<longleftrightarrow> (\<exists>e. parse u = Inl e))
   \<and> (\<forall>x. parse u = Inr x \<longrightarrow>
         NewBackend parse u w =
           Inr \<lparr>URL = x, RawURL = u, Weight = w, healthy = True, blocked = False,
                activeConns = 0, totalRequests = 0, totalErrors = 0\<rparr>)
   \<and> (\<not> stringContainsCTLByte (CHR ''/'' # r) \<and> CHR ''%'' \<notin> set r \<and> \<not> HasPrefix r ''/'' \<longrightarrow>
         (\<exists>bk. NewBackend url_Parse (CHR ''/'' # r) w = Inr bk
               \<and> Scheme (URL bk) = [] \<and> Host (URL bk) = []))"
proof (intro conjI allI impI)
  show "(\<exists>e. NewBackend parse u w = Inl e) \<longleftrightarrow> (\<exists>e. parse u = Inl e)"
    by (cases "parse u") (simp_all add: NewBackend_def)
next
  fix x assume "parse u = Inr x"
  then show "NewBackend parse u w =
           Inr \<lparr>URL = x, RawURL = u, Weight = w, healthy = True, blocked = False,
                activeConns = 0, totalRequests = 0, totalErrors = 0\<rparr>"
    by (simp add: NewBackend_def)
next
  assume "\<not> stringContainsCTLByte (CHR ''/'' # r) \<and> CHR ''%'' \<notin> set r \<and> \<not> HasPrefix r ''/''"
  then obtain x where "url_Parse (CHR ''/'' # r) = Inr x" "Scheme x = []" "Host x = []"
    using url_Parse_relative by blast
  then show "\<exists>bk. NewBackend url_Parse (CHR ''/'' # r) w = Inr bk
               \<and> Scheme (URL bk) = [] \<and> Host (URL bk) = []"
    by (simp add: NewBackend_def)
qed

theorem NewBackend_fails_iff_witness:
  "(\<exists>e. NewBackend url_Parse ''127.0.0.1:9000'' 1 = Inl e)
   \<and> NewBackend url_Parse ''http://b1:80'' 1 =
       Inr \<lparr>URL = empty_URL\<lparr>Scheme := ''http'', Host := ''b1:80''\<rparr>, RawURL = ''http://b1:80'',
            Weight = 1, healthy = True, blocked = False, activeConns = 0, totalRequests = 0,
            totalErrors = 0\<rparr>
   \<and> (\<exists>bk. NewBackend url_Parse ''/healthz'' 1 = Inr bk \<and> Scheme (URL bk) = [] \<and> Host (URL bk) = [])"
  using NewBackend_fails_iff [of url_Parse "''127.0.0.1:9000''" 1 "''healthz''"]
        NewBackend_fails_iff [of url_Parse "''http://b1:80''" 1 "''healthz''"]
  by (simp add: url_Parse_examples stringContainsCTLByte_def HasPrefix_def)

section \<open>Registry mutations\<close>

lemma find_loop_neg:
  "0 \<le> i \<Longrightarrow> (find_loop h u bs i < 0) = (\<forall>b\<in>set bs. RawURL (h b) \<noteq> u)"
  by (induction bs arbitrary: i) auto

lemma find_loop_found:
  assumes "0 \<le> i" and "0 \<le> find_loop h u bs i"
  shows "i \<le> find_loop h u bs i
       \<and> nat (find_loop h u bs i - i) < length bs
       \<and> RawURL (h (bs ! nat (find_loop h u bs i - i))) = u
       \<and> (\<forall>j < nat (find_loop h u bs i - i). RawURL (h (bs ! j)) \<noteq> u)"
  using assms
proof (induction bs arbitrary: i)
  case Nil
  then show ?case by simp
next
  case (Cons b bs)
  show ?case
  proof (cases "RawURL (h b) = u")
    case True
    then show ?thesis by simp
  next
    case False
    with Cons.prems have f: "0 \<le> find_loop h u bs (i + 1)" by simp
    from Cons.IH [OF _ f] Cons.prems(1)
    have ih: "i + 1 \<le> find_loop h u bs (i + 1)"
      "nat (find_loop h u bs (i + 1) - (i + 1)) < length bs"
      "RawURL (h (bs ! nat (find_loop h u bs (i + 1) - (i + 1)))) = u"
      "\<forall>j < nat (find_loop h u bs (i + 1) - (i + 1)). RawURL (h (bs ! j)) \<noteq> u"
      by simp_all
    let ?k = "nat (find_loop h u bs (i + 1) - (i + 1))"
    have k: "nat (find_loop h u bs (i + 1) - i) = Suc ?k"
      using ih(1) by simp
    show ?thesis
      using False ih k by (auto simp: nth_Cons' less_Suc_eq_0_disj)
  qed
qed

lemma Registry_Add_cases:
  assumes wf: "\<forall>p\<in>set (reg_backends r). p < brk r"
  shows "Registry_Add parse r u w =
     (case parse u of
        Inl e \<Rightarrow> (Some (ErrInvalidURL u e), r)
      | Inr x \<Rightarrow>
          let obj = \<lparr>URL = x, RawURL = u, Weight = w, healthy = True, blocked = False,
                     activeConns = 0, totalRequests = 0, totalErrors = 0\<rparr>
          in if \<exists>p\<in>set (reg_backends r). RawURL (objs r p) = u
             then (Some (ErrAlreadyExists u),
                   r\<lparr>objs := (objs r)(brk r := obj), brk := brk r + 1,
                     events := events r @ [MuLock, MuUnlock]\<rparr>)
             else (None,
                   r\<lparr>objs := (objs r)(brk r := obj), brk := brk r + 1,
                     reg_backends := reg_backends r @ [brk r],
                     events := events r @ [MuLock, MuUnlock,
                                OnChange (reg_strategy r) (reg_backends r @ [brk r])]\<rparr>))"
proof (cases "parse u")
  case (Inl e)
  then show ?thesis by (simp add: Registry_Add_def NewBackend_def)
next
  case (Inr x)
  have "\<And>obj. list_ex (\<lambda>existing. RawURL (((objs r)(brk r := obj)) existing) = u) (reg_backends r)
        = (\<exists>p\<in>set (reg_backends r). RawURL (objs r p) = u)"
  proof -
    fix obj
    have "\<forall>p\<in>set (reg_backends r). ((objs r)(brk r := obj)) p = objs r p"
      using wf by auto
    then show "list_ex (\<lambda>existing. RawURL (((objs r)(brk r := obj)) existing) = u) (reg_backends r)
        = (\<exists>p\<in>set (reg_backends r). RawURL (objs r p) = u)"
      unfolding list_ex_iff by (intro bex_cong refl) simp
  qed
  then show ?thesis
    using Inr by (simp add: Registry_Add_def NewBackend_def Let_def snapshot_def)
qed

lemma Registry_Remove_cases:
  "Registry_Remove r u =
     (let idx = find_loop (objs r) u (reg_backends r) 0 in
      if idx < 0 then (Some (ErrNotFound u), r\<lparr>events := events r @ [MuLock, MuUnlock]\<rparr>)
      else (None,
            r\<lparr>reg_backends := take (nat idx) (reg_backends r) @ drop (nat idx + 1) (reg_backends r),
              events := events r @ [MuLock, MuUnlock,
                 OnChange (reg_strategy r)
                   (take (nat idx) (reg_backends r) @ drop (nat idx + 1) (reg_backends r))]\<rparr>))"
  by (simp add: Registry_Remove_def Registry_find_def Let_def snapshot_def)

lemma example_registry_facts:
  "reg_backends example_registry = [0]" "brk example_registry = 1"
  "events example_registry = []" "reg_strategy example_registry = ''round_robin''"
  "RawURL (objs example_registry 0) = ''http://b1:80''"
  by (simp_all add: example_registry_def heap_of_def example_backend_def)

text \<open>
  C9, as the claim states it, fails: \<open>Add\<close> also fails when \<open>NewBackend\<close> rejects the
  URL, although no backend with that URL is registered.
\<close>

theorem registry_add_invalid_url:
  "fst (Registry_Add url_Parse example_registry ''127.0.0.1:9000'' 1) =
      Some (ErrInvalidURL ''127.0.0.1:9000'' ''first path segment in URL cannot contain colon'')
   \<and> \<not> list_ex (\<lambda>p. RawURL (objs example_registry p) = ''127.0.0.1:9000'')
          (reg_backends example_registry)"
  by (simp add: Registry_Add_def NewBackend_def url_Parse_examples example_registry_facts)

text \<open>
  C9, amended. In a registry whose backends were allocated before (their addresses lie
  below the next free one): \<open>Add\<close> fails exactly when the parser rejects the URL or a
  registered backend has the same raw URL; \<open>Remove\<close> fails exactly when no registered
  backend has that raw URL. A failed call leaves the list and the registered backends as
  they were and does not call \<open>onChange\<close> (the lock is taken and released, or not
  touched at all). A successful \<open>Add\<close> appends the new backend, a successful \<open>Remove\<close>
  drops the first backend with that URL, and each calls \<open>onChange\<close> exactly once, after
  the lock is released, with the current strategy and a copy of the new list.
\<close>

theorem registry_add_remove:
  assumes wf: "\<forall>p\<in>set (reg_backends r). p < brk r"
      and add: "Registry_Add parse r u w = (ra, r_add)"
      and rem: "Registry_Remove r u = (rr, r_rem)"
  shows "((ra \<noteq> None) =
            ((\<exists>e. parse u = Inl e) \<or> (\<exists>p\<in>set (reg_backends r). RawURL (objs r p) = u)))
       \<and> (ra \<noteq> None \<longrightarrow>
            reg_backends r_add = reg_backends r
            \<and> (\<forall>p\<in>set (reg_backends r). objs r_add p = objs r p)
            \<and> (\<exists>evs. events r_add = events r @ evs \<and> set evs \<subseteq> {MuLock, MuUnlock}))
       \<and> (ra = None \<longrightarrow>
            reg_backends r_add = reg_backends r @ [brk r]
            \<and> RawURL (objs r_add (brk r)) = u \<and> Weight (objs r_add (brk r)) = w
            \<and> (\<forall>p\<in>set (reg_backends r). objs r_add p = objs r p)
            \<and> events r_add =
                events r @ [MuLock, MuUnlock, OnChange (reg_strategy r) (reg_backends r_add)])
       \<and> ((rr \<noteq> None) = (\<forall>p\<in>set (reg_backends r). RawURL (objs r p) \<noteq> u))
       \<and> (rr \<noteq> None \<longrightarrow>
            reg_backends r_rem = reg_backends r \<and> objs r_rem = objs r
            \<and> events r_rem = events r @ [MuLock, MuUnlock])
       \<and> (rr = None \<longrightarrow>
            (\<exists>i<length (reg_backends r).
                RawURL (objs r (reg_backends r ! i)) = u
                \<and> (\<forall>j<i. RawURL (objs r (reg_backends r ! j)) \<noteq> u)
                \<and> reg_backends r_rem = take i (reg_backends r) @ drop (Suc i) (reg_backends r))
            \<and> objs r_rem = objs r
            \<and> events r_rem =
                events r @ [MuLock, MuUnlock, OnChange (reg_strategy r) (reg_backends r_rem)])"
proof -
  have A: "((ra \<noteq> None) =
            ((\<exists>e. parse u = Inl e) \<or> (\<exists>p\<in>set (reg_backends r). RawURL (objs r p) = u)))
       \<and> (ra \<noteq> None \<longrightarrow>
            reg_backends r_add = reg_backends r
            \<and> (\<forall>p\<in>set (reg_backends r). objs r_add p = objs r p)
            \<and> (\<exists>evs. events r_add = events r @ evs \<and> set evs \<subseteq> {MuLock, MuUnlock}))
       \<and> (ra = None \<longrightarrow>
            reg_backends r_add = reg_backends r @ [brk r]
            \<and> RawURL (objs r_add (brk r)) = u \<and> Weight (objs r_add (brk r)) = w
            \<and> (\<forall>p\<in>set (reg_backends r). objs r_add p = objs r p)
            \<and> events r_add =
                events r @ [MuLock, MuUnlock, OnChange (reg_strategy r) (reg_backends r_add)])"
  proof (cases "parse u")
    case (Inl e)
    then show ?thesis
      using add unfolding Registry_Add_cases [OF wf] by auto
  next
    case (Inr x)
    show ?thesis
    proof (cases "\<exists>p\<in>set (reg_backends r). RawURL (objs r p) = u")
      case True
      have "events r @ [MuLock, MuUnlock] = events r @ [MuLock, MuUnlock]
            \<and> set [MuLock, MuUnlock] \<subseteq> {MuLock, MuUnlock}" by simp
      then have "\<exists>evs. events r @ [MuLock, MuUnlock] = events r @ evs
            \<and> set evs \<subseteq> {MuLock, MuUnlock}" by blast
      then show ?thesis
        using add Inr True wf unfolding Registry_Add_cases [OF wf]
        by (auto simp: Let_def)
    next
      case False
      then show ?thesis
        using add Inr wf unfolding Registry_Add_cases [OF wf]
        by (auto simp: Let_def)
    qed
  qed
  let ?idx = "find_loop (objs r) u (reg_backends r) 0"
  have B: "((rr \<noteq> None) = (\<forall>p\<in>set (reg_backends r). RawURL (objs r p) \<noteq> u))
       \<and> (rr \<noteq> None \<longrightarrow>
            reg_backends r_rem = reg_backends r \<and> objs r_rem = objs r
            \<and> events r_rem = events r @ [MuLock, MuUnlock])
       \<and> (rr = None \<longrightarrow>
            (\<exists>i<length (reg_backends r).
                RawURL (objs r (reg_backends r ! i)) = u
                \<and> (\<forall>j<i. RawURL (objs r (reg_backends r ! j)) \<noteq> u)
                \<and> reg_backends r_rem = take i (reg_backends r) @ drop (Suc i) (reg_backends r))
            \<and> objs r_rem = objs r
            \<and> events r_rem =
                events r @ [MuLock, MuUnlock, OnChange (reg_strategy r) (reg_backends r_rem)])"
  proof (cases "?idx < 0")
    case True
    then have "\<forall>p\<in>set (reg_backends r). RawURL (objs r p) \<noteq> u"
      by (simp add: find_loop_neg)
    then show ?thesis
      using rem True unfolding Registry_Remove_cases by (auto simp: Let_def)
  next
    case False
    then have ge: "0 \<le> ?idx" by simp
    from find_loop_found [OF _ ge]
    have f: "nat ?idx < length (reg_backends r)"
      "RawURL (objs r (reg_backends r ! nat ?idx)) = u"
      "\<forall>j < nat ?idx. RawURL (objs r (reg_backends r ! j)) \<noteq> u"
      by simp_all
    have ex: "\<exists>p\<in>set (reg_backends r). RawURL (objs r p) = u"
      using f(1,2) nth_mem by blast
    have r1: "rr = None" and r2: "r_rem =
            r\<lparr>reg_backends := take (nat ?idx) (reg_backends r) @ drop (nat ?idx + 1) (reg_backends r),
              events := events r @ [MuLock, MuUnlock,
                 OnChange (reg_strategy r)
                   (take (nat ?idx) (reg_backends r) @ drop (nat ?idx + 1) (reg_backends r))]\<rparr>"
      using rem False unfolding Registry_Remove_cases by (simp_all add: Let_def)
    have "\<exists>i<length (reg_backends r).
                RawURL (objs r (reg_backends r ! i)) = u
                \<and> (\<forall>j<i. RawURL (objs r (reg_backends r ! j)) \<noteq> u)
                \<and> reg_backends r_rem = take i (reg_backends r) @ drop (Suc i) (reg_backends r)"
      using f r2 by (intro exI [of _ "nat ?idx"]) simp
    then show ?thesis
      using r1 r2 ex by auto
  qed
  from A B show ?thesis by blast
qed

theorem registry_add_remove_witness:
  "fst (Registry_Add url_Parse example_registry ''http://b1:80'' 1) \<noteq> None
   \<and> reg_backends (snd (Registry_Add url_Parse example_registry ''http://b1:80'' 1)) = [0]
   \<and> fst (Registry_Remove example_registry ''http://b1:80'') = None
   \<and> fst (Registry_Add url_Parse example_registry ''http://b2:80'' 1) = None
   \<and> events (snd (Registry_Add url_Parse example_registry ''http://b2:80'' 1)) =
       [MuLock, MuUnlock, OnChange ''round_robin'' [0, 1]]
   \<and> fst (Registry_Remove example_registry ''http://b2:80'') \<noteq> None
   \<and> reg_backends (snd (Registry_Remove example_registry ''http://b2:80'')) = [0]"
proof -
  have wf: "\<forall>p\<in>set (reg_backends example_registry). p < brk example_registry"
    by (simp add: example_registry_facts)
  have p2: "\<not> (\<exists>e. url_Parse ''http://b2:80'' = Inl e)"
    by (simp add: url_Parse_def url_parse_def strings_Cut_def getScheme_def is_letter_def
        is_scheme_extra_def stringContainsCTLByte_def ToLower_def HasPrefix_def Let_def
        empty_URL_def authority_host_def)
  note t1 = registry_add_remove [OF wf surjective_pairing surjective_pairing,
      where parse = url_Parse and u = "''http://b1:80''" and w = 1]
  note t2 = registry_add_remove [OF wf surjective_pairing surjective_pairing,
      where parse = url_Parse and u = "''http://b2:80''" and w = 1]
  from t1 have a1: "fst (Registry_Add url_Parse example_registry ''http://b1:80'' 1) \<noteq> None"
    by (simp add: example_registry_facts)
  with t1 have a2: "reg_backends (snd (Registry_Add url_Parse example_registry ''http://b1:80'' 1)) = [0]"
    by (simp add: example_registry_facts)
  from t1 have a3: "fst (Registry_Remove example_registry ''http://b1:80'') = None"
    by (simp add: example_registry_facts)
  from t2 p2 have b1: "fst (Registry_Add url_Parse example_registry ''http://b2:80'' 1) = None"
    by (simp add: example_registry_facts)
  with t2 have b2: "events (snd (Registry_Add url_Parse example_registry ''http://b2:80'' 1)) =
       [MuLock, MuUnlock, OnChange ''round_robin'' [0, 1]]"
    by (simp add: example_registry_facts)
  from t2 have b3: "fst (Registry_Remove example_registry ''http://b2:80'') \<noteq> None"
    by (simp add: example_registry_facts)
  with t2 have b4: "reg_backends (snd (Registry_Remove example_registry ''http://b2:80'')) = [0]"
    by (simp add: example_registry_facts)
  from a1 a2 a3 b1 b2 b3 b4 show ?thesis by blast
qed

section \<open>Weighted round robin\<close>

subsection \<open>The three loops of Next\<close>

lemma wrr_collect_fold:
  "fold (\<lambda>i (hl, tot).
             if IsHealthy h (backend (es ! i))
             then (hl @ [i], tot + Weight (h (backend (es ! i))))
             else (hl, tot)) xs (hl0, t0) =
   (hl0 @ filter (\<lambda>i. IsHealthy h (backend (es ! i))) xs,
    t0 + sum_list (map (\<lambda>i. Weight (h (backend (es ! i))))
                     (filter (\<lambda>i. IsHealthy h (backend (es ! i))) xs)))"
  by (induction xs arbitrary: hl0 t0) (simp_all add: add.assoc)

lemma wrr_collect_eq:
  "wrr_collect h es =
     (wrr_healthy h es, sum_list (map (\<lambda>i. Weight (h (backend (es ! i)))) (wrr_healthy h es)))"
  by (simp add: wrr_collect_def wrr_collect_fold wrr_healthy_def)

lemma fold_update_length:
  "length (fold (\<lambda>i ys. ys[i := f (ys ! i)]) is xs) = length xs"
  by (induction "is" arbitrary: xs) simp_all

lemma fold_update_nth:
  "distinct is \<Longrightarrow> j < length xs \<Longrightarrow>
   fold (\<lambda>i ys. ys[i := f (ys ! i)]) is xs ! j = (if j \<in> set is then f (xs ! j) else xs ! j)"
proof (induction "is" arbitrary: xs)
  case Nil
  then show ?case by simp
next
  case (Cons i "is")
  then show ?case by (cases "j = i") (auto simp: nth_list_update)
qed

lemma wrr_healthy_props:
  "distinct (wrr_healthy h es)"
  "i \<in> set (wrr_healthy h es) \<longleftrightarrow> i < length es \<and> IsHealthy h (backend (es ! i))"
  by (auto simp: wrr_healthy_def)

lemma wrr_raise_fold:
  "wrr_raise h hl es = fold (\<lambda>i ys. ys[i := bump_entry h (ys ! i)]) hl es"
  by (simp add: wrr_raise_def bump_entry_def)

lemma wrr_raise_eq:
  "wrr_raise h (wrr_healthy h es) es = map (raise_entry h) es"
proof (rule nth_equalityI)
  show "length (wrr_raise h (wrr_healthy h es) es) = length (map (raise_entry h) es)"
    unfolding wrr_raise_fold by (simp only: fold_update_length length_map)
next
  fix j assume "j < length (wrr_raise h (wrr_healthy h es) es)"
  then have j: "j < length es"
    unfolding wrr_raise_fold by (simp only: fold_update_length)
  have "wrr_raise h (wrr_healthy h es) es ! j =
      (if j \<in> set (wrr_healthy h es) then bump_entry h (es ! j) else es ! j)"
    unfolding wrr_raise_fold
    by (rule fold_update_nth [OF wrr_healthy_props(1) j])
  then show "wrr_raise h (wrr_healthy h es) es ! j = map (raise_entry h) es ! j"
    using j by (simp add: wrr_healthy_props raise_entry_def bump_entry_def)
qed

lemma wrr_best_props:
  "wrr_best es i0 rest \<in> set (i0 # rest)
   \<and> (\<forall>i\<in>set (i0 # rest). sint (currentWeight (es ! i))
                            \<le> sint (currentWeight (es ! wrr_best es i0 rest)))"
  unfolding wrr_best_def
proof (induction rest arbitrary: i0)
  case Nil
  then show ?case by simp
next
  case (Cons i rest)
  show ?case
    using Cons.IH [of i] Cons.IH [of i0]
    by (auto simp: word_sless_alt)
qed

lemma wrr_select_None: "wrr_healthy h es = [] \<Longrightarrow> wrr_select h es = None"
  by (simp add: wrr_select_def wrr_collect_eq)

lemma wrr_select_Some:
  assumes "wrr_healthy h es = i0 # rest"
  shows "wrr_select h es =
     Some (wrr_best (map (raise_entry h) es) i0 rest,
           (map (raise_entry h) es)
             [wrr_best (map (raise_entry h) es) i0 rest :=
                (map (raise_entry h) es ! wrr_best (map (raise_entry h) es) i0 rest)
                  \<lparr>currentWeight :=
                     currentWeight (map (raise_entry h) es ! wrr_best (map (raise_entry h) es) i0 rest)
                     - sum_list (map (\<lambda>i. Weight (h (backend (es ! i)))) (i0 # rest))\<rparr>])"
  using wrr_raise_eq [of h es] assms
  by (simp add: wrr_select_def wrr_collect_eq Let_def)

subsection \<open>Entries, backends and heaps\<close>

lemma backend_raise_entry [simp]: "backend (raise_entry h e) = backend e"
  by (simp add: raise_entry_def)

lemma wrr_select_backends:
  assumes "wrr_select h es = Some (best, es')"
  shows "map backend es' = map backend es \<and> best \<in> set (wrr_healthy h es)"
proof (cases "wrr_healthy h es")
  case Nil
  with assms show ?thesis by (simp add: wrr_select_None)
next
  case (Cons i0 rest)
  let ?es1 = "map (raise_entry h) es"
  have b: "wrr_best ?es1 i0 rest \<in> set (i0 # rest)"
    using wrr_best_props by blast
  then have "wrr_best ?es1 i0 rest < length es"
    using wrr_healthy_props(2) [of _ h es] Cons by simp
  then show ?thesis
    using assms b unfolding wrr_select_Some [OF Cons]
    by (auto simp: Cons map_update o_def intro!: nth_equalityI simp: nth_list_update)
qed

lemma all_healthy_indices:
  assumes "\<forall>e\<in>set es. IsHealthy h (backend e)"
  shows "wrr_healthy h es = [0..<length es]"
  using assms by (auto simp: wrr_healthy_def filter_id_conv)

lemma sum_nth_upt: "sum_list (map (\<lambda>i. f (es ! i)) [0..<length es]) = sum_list (map f es)"
proof -
  have "map (\<lambda>i. f (es ! i)) [0..<length es] = map f (map (\<lambda>i. es ! i) [0..<length es])"
    by (simp add: o_def)
  then show ?thesis by (simp add: map_nth)
qed

lemma IsHealthy_IncConns [simp]: "IsHealthy (IncConns h b) x = IsHealthy h x"
  by (simp add: IsHealthy_def IncConns_def)

lemma Weight_IncConns [simp]: "Weight (IncConns h b x) = Weight (h x)"
  by (simp add: IncConns_def)

section \<open>Weighted round robin: windows\<close>

lemma sint_add_no_overflow:
  fixes a b :: "64 word"
  assumes "- (2 ^ 63) \<le> sint a + sint b" and "sint a + sint b < 2 ^ 63"
  shows "sint (a + b) = sint a + sint b"
  using assms by (simp add: sint_word_ariths signed_take_bit_int_eq_self)

lemma sint_sub_no_overflow:
  fixes a b :: "64 word"
  assumes "- (2 ^ 63) \<le> sint a - sint b" and "sint a - sint b < 2 ^ 63"
  shows "sint (a - b) = sint a - sint b"
  using assms by (simp add: sint_word_ariths signed_take_bit_int_eq_self)

lemma sint_sum_list:
  fixes ws :: "64 word list"
  assumes "\<forall>w\<in>set ws. 0 \<le> sint w" and "(\<Sum>w\<leftarrow>ws. sint w) < 2 ^ 63"
  shows "sint (sum_list ws) = (\<Sum>w\<leftarrow>ws. sint w)"
  using assms
proof (induction ws)
  case Nil
  then show ?case by simp
next
  case (Cons w ws)
  have nn: "0 \<le> (\<Sum>w\<leftarrow>ws. sint w)"
    using Cons.prems(1) by (intro sum_list_nonneg) auto
  have "0 \<le> sint w" using Cons.prems(1) by simp
  with Cons.prems(2) nn have lt: "(\<Sum>w\<leftarrow>ws. sint w) < 2 ^ 63" by simp
  have ih: "sint (sum_list ws) = (\<Sum>w\<leftarrow>ws. sint w)"
    using Cons.IH Cons.prems(1) lt by simp
  have "sint (w + sum_list ws) = sint w + sint (sum_list ws)"
  proof (rule sint_add_no_overflow)
    show "- (2 ^ 63) \<le> sint w + sint (sum_list ws)"
      using nn \<open>0 \<le> sint w\<close> by (simp add: ih)
    show "sint w + sint (sum_list ws) < 2 ^ 63"
      using Cons.prems(2) by (simp add: ih)
  qed
  then show ?case by (simp add: ih)
qed

lemma wrr_total_set:
  "wrr_total h es = sum (wrr_weight h es) (set (wrr_healthy h es))"
  unfolding wrr_total_def
  by (rule sum_list_distinct_conv_sum_set [OF wrr_healthy_props(1)])

lemma wrr_cw_sum_set:
  "(\<Sum>i\<leftarrow>wrr_healthy h es. f i) = sum f (set (wrr_healthy h es))"
  by (rule sum_list_distinct_conv_sum_set [OF wrr_healthy_props(1)])

lemma wrr_weight_le_total:
  assumes "wrr_bounded h es" and "i \<in> set (wrr_healthy h es)"
  shows "wrr_weight h es i \<le> wrr_total h es"
  unfolding wrr_total_set
proof (rule member_le_sum [OF assms(2)])
  fix x assume "x \<in> set (wrr_healthy h es) - {i}"
  then have "1 \<le> wrr_weight h es x" using assms(1) by (simp add: wrr_bounded_def)
  then show "0 \<le> wrr_weight h es x" by simp
qed simp

lemma wrr_total_pos:
  assumes "wrr_bounded h es" and "i \<in> set (wrr_healthy h es)"
  shows "1 \<le> wrr_total h es"
proof -
  have "1 \<le> wrr_weight h es i" using assms by (simp add: wrr_bounded_def)
  with wrr_weight_le_total [OF assms] show ?thesis by simp
qed

lemma wrr_total_bound:
  assumes "wrr_bounded h es" and "i \<in> set (wrr_healthy h es)"
  shows "wrr_total h es < 2 ^ 63"
proof -
  have "wrr_healthy h es \<noteq> []" using assms(2) by auto
  then have "1 \<le> int (length (wrr_healthy h es))"
    by (cases "wrr_healthy h es") simp_all
  moreover have "0 \<le> wrr_total h es" using wrr_total_pos [OF assms] by simp
  ultimately have "wrr_total h es \<le> int (length (wrr_healthy h es)) * wrr_total h es"
    by (simp add: mult_le_cancel_right1)
  then show ?thesis using assms(1) by (simp add: wrr_bounded_def)
qed

lemma wrr_cw_upper:
  assumes inv: "wrr_inv h es" and i: "i \<in> set (wrr_healthy h es)"
  shows "wrr_cw es i \<le> (int (length (wrr_healthy h es)) - 1) * wrr_total h es"
proof -
  let ?H = "set (wrr_healthy h es)"
  let ?T = "wrr_total h es"
  have z: "sum (wrr_cw es) ?H = 0"
    using inv by (simp add: wrr_inv_def wrr_cw_sum_set)
  have "sum (wrr_cw es) ?H = wrr_cw es i + sum (wrr_cw es) (?H - {i})"
    using i by (simp add: sum.remove)
  moreover have "sum (\<lambda>j. - ?T) (?H - {i}) \<le> sum (wrr_cw es) (?H - {i})"
  proof (rule sum_mono)
    fix j assume "j \<in> ?H - {i}"
    then show "- ?T \<le> wrr_cw es j" using inv by (auto simp: wrr_inv_def intro: less_imp_le)
  qed
  moreover have "card (?H - {i}) = length (wrr_healthy h es) - 1"
    using i by (simp add: distinct_card [OF wrr_healthy_props(1)])
  moreover have "1 \<le> length (wrr_healthy h es)"
    using i by (cases "wrr_healthy h es") simp_all
  ultimately have "wrr_cw es i \<le> int (length (wrr_healthy h es) - 1) * ?T"
    using z by simp
  then show ?thesis
    using \<open>1 \<le> length (wrr_healthy h es)\<close> by simp
qed

lemma wrr_some_nonneg:
  assumes inv: "wrr_inv h es" and ne: "wrr_healthy h es \<noteq> []"
  shows "\<exists>j\<in>set (wrr_healthy h es). 0 \<le> wrr_cw es j"
proof (rule ccontr)
  assume "\<not> ?thesis"
  then have neg: "\<forall>j\<in>set (wrr_healthy h es). wrr_cw es j < 0" by auto
  have "sum (wrr_cw es) (set (wrr_healthy h es)) < sum (\<lambda>j. 0) (set (wrr_healthy h es))"
    by (rule sum_strict_mono) (use neg ne in auto)
  then show False using inv by (simp add: wrr_inv_def wrr_cw_sum_set)
qed

lemma wrr_raised_cw:
  assumes bd: "wrr_bounded h es" and inv: "wrr_inv h es" and i: "i < length es"
  shows "wrr_cw (map (raise_entry h) es) i =
           (if i \<in> set (wrr_healthy h es) then wrr_cw es i + wrr_weight h es i else wrr_cw es i)"
proof (cases "i \<in> set (wrr_healthy h es)")
  case False
  then show ?thesis
    using i by (simp add: wrr_cw_def raise_entry_def wrr_healthy_props)
next
  case True
  let ?T = "wrr_total h es"
  let ?n = "int (length (wrr_healthy h es))"
  have lo: "- ?T < wrr_cw es i" using inv True by (simp add: wrr_inv_def)
  have up: "wrr_cw es i \<le> (?n - 1) * ?T" by (rule wrr_cw_upper [OF inv True])
  have w1: "1 \<le> wrr_weight h es i" using bd True by (simp add: wrr_bounded_def)
  have w2: "wrr_weight h es i \<le> ?T" by (rule wrr_weight_le_total [OF bd True])
  have T: "?T < 2 ^ 63" by (rule wrr_total_bound [OF bd True])
  have nT: "?n * ?T < 2 ^ 63" using bd by (simp add: wrr_bounded_def)
  have "(?n - 1) * ?T + ?T = ?n * ?T" by (simp add: algebra_simps)
  with up w2 nT have hi: "wrr_cw es i + wrr_weight h es i < 2 ^ 63" by linarith
  have lo': "- (2 ^ 63) \<le> wrr_cw es i + wrr_weight h es i" using lo w1 T by linarith
  have "sint (currentWeight (es ! i) + Weight (h (backend (es ! i)))) =
        sint (currentWeight (es ! i)) + sint (Weight (h (backend (es ! i))))"
    using lo' hi by (intro sint_add_no_overflow) (simp_all add: wrr_cw_def wrr_weight_def)
  then show ?thesis
    using True i by (simp add: wrr_cw_def wrr_weight_def raise_entry_def wrr_healthy_props)
qed

lemma wrr_tot_sint:
  assumes bd: "wrr_bounded h es" and ne: "wrr_healthy h es \<noteq> []"
  shows "sint (sum_list (map (\<lambda>i. Weight (h (backend (es ! i)))) (wrr_healthy h es))) = wrr_total h es"
proof -
  obtain i where i: "i \<in> set (wrr_healthy h es)" using ne by (cases "wrr_healthy h es") auto
  let ?ws = "map (\<lambda>i. Weight (h (backend (es ! i)))) (wrr_healthy h es)"
  have s: "(\<Sum>w\<leftarrow>?ws. sint w) = wrr_total h es"
    by (simp add: wrr_total_def wrr_weight_def o_def)
  have "\<forall>w\<in>set ?ws. 0 \<le> sint w"
    using bd by (auto simp: wrr_bounded_def wrr_weight_def)
  moreover have "(\<Sum>w\<leftarrow>?ws. sint w) < 2 ^ 63"
    unfolding s by (rule wrr_total_bound [OF bd i])
  ultimately show ?thesis using sint_sum_list [of ?ws] s by simp
qed

lemma wrr_step:
  assumes ne: "wrr_healthy h es \<noteq> []"
      and bd: "wrr_bounded h es"
      and inv: "wrr_inv h es"
  shows "\<exists>best es'.
           wrr_select h es = Some (best, es')
         \<and> best \<in> set (wrr_healthy h es)
         \<and> length es' = length es
         \<and> map backend es' = map backend es
         \<and> (\<forall>i<length es. i \<notin> set (wrr_healthy h es) \<longrightarrow> es' ! i = es ! i)
         \<and> (\<forall>i\<in>set (wrr_healthy h es).
               wrr_cw es' i = wrr_cw es i + wrr_weight h es i
                              - (if i = best then wrr_total h es else 0))
         \<and> 0 < wrr_cw es best + wrr_weight h es best"
proof -
  obtain i0 rest where H: "wrr_healthy h es = i0 # rest" using ne by (cases "wrr_healthy h es") auto
  let ?H = "wrr_healthy h es"
  let ?T = "wrr_total h es"
  let ?es1 = "map (raise_entry h) es"
  let ?best = "wrr_best ?es1 i0 rest"
  let ?tot = "sum_list (map (\<lambda>i. Weight (h (backend (es ! i)))) (i0 # rest))"
  let ?es' = "?es1[?best := (?es1 ! ?best)\<lparr>currentWeight := currentWeight (?es1 ! ?best) - ?tot\<rparr>]"
  have sel: "wrr_select h es = Some (?best, ?es')" by (rule wrr_select_Some [OF H])
  have bH: "?best \<in> set ?H" using wrr_best_props [of ?es1 i0 rest] H by simp
  then have bl: "?best < length es" by (simp add: wrr_healthy_props)
  have mx: "\<forall>i\<in>set ?H. wrr_cw ?es1 i \<le> wrr_cw ?es1 ?best"
    using wrr_best_props [of ?es1 i0 rest] H by (simp add: wrr_cw_def)
  have raised: "\<And>i. i \<in> set ?H \<Longrightarrow> wrr_cw ?es1 i = wrr_cw es i + wrr_weight h es i"
    using wrr_raised_cw [OF bd inv] by (simp add: wrr_healthy_props)
  have tot: "sint ?tot = ?T" using wrr_tot_sint [OF bd ne] H by simp
  have T: "?T < 2 ^ 63" by (rule wrr_total_bound [OF bd bH])
  have Tpos: "1 \<le> ?T" by (rule wrr_total_pos [OF bd bH])
  obtain j where j: "j \<in> set ?H" "0 \<le> wrr_cw es j" using wrr_some_nonneg [OF inv ne] by blast
  have "1 \<le> wrr_weight h es j" using bd j(1) by (simp add: wrr_bounded_def)
  with j have "1 \<le> wrr_cw ?es1 j" by (simp add: raised)
  with mx j(1) have bpos: "1 \<le> wrr_cw ?es1 ?best" by force
  have up: "wrr_cw es ?best \<le> (int (length ?H) - 1) * ?T" by (rule wrr_cw_upper [OF inv bH])
  have w2: "wrr_weight h es ?best \<le> ?T" by (rule wrr_weight_le_total [OF bd bH])
  have nT: "int (length ?H) * ?T < 2 ^ 63" using bd by (simp add: wrr_bounded_def)
  have "(int (length ?H) - 1) * ?T + ?T = int (length ?H) * ?T" by (simp add: algebra_simps)
  with up w2 nT have bhi: "wrr_cw ?es1 ?best < 2 ^ 63" unfolding raised [OF bH] by linarith
  have sub: "sint (currentWeight (?es1 ! ?best) - ?tot) = wrr_cw ?es1 ?best - ?T"
  proof -
    have "sint (currentWeight (?es1 ! ?best) - ?tot) = sint (currentWeight (?es1 ! ?best)) - sint ?tot"
    proof (rule sint_sub_no_overflow)
      show "- (2 ^ 63) \<le> sint (currentWeight (?es1 ! ?best)) - sint ?tot"
        using bpos T unfolding tot wrr_cw_def by linarith
      show "sint (currentWeight (?es1 ! ?best)) - sint ?tot < 2 ^ 63"
        using bhi Tpos unfolding tot wrr_cw_def by linarith
    qed
    then show ?thesis by (simp only: tot wrr_cw_def)
  qed
  have len: "length ?es' = length es" by simp
  have mb: "map backend ?es' = map backend es"
    using bl by (intro nth_equalityI) (simp_all add: nth_list_update)
  have un: "\<forall>i<length es. i \<notin> set ?H \<longrightarrow> ?es' ! i = es ! i"
  proof (intro allI impI)
    fix i assume i: "i < length es" "i \<notin> set ?H"
    then have "i \<noteq> ?best" using bH by auto
    then show "?es' ! i = es ! i"
      using i by (simp add: raise_entry_def wrr_healthy_props)
  qed
  have cw: "\<forall>i\<in>set ?H. wrr_cw ?es' i = wrr_cw es i + wrr_weight h es i
                              - (if i = ?best then ?T else 0)"
  proof
    fix i assume i: "i \<in> set ?H"
    then have il: "i < length es" by (simp add: wrr_healthy_props)
    show "wrr_cw ?es' i = wrr_cw es i + wrr_weight h es i - (if i = ?best then ?T else 0)"
    proof (cases "i = ?best")
      case True
      have "wrr_cw ?es' ?best = sint (currentWeight (?es1 ! ?best) - ?tot)"
        using bl by (simp add: wrr_cw_def)
      then show ?thesis using True sub raised [OF bH] by simp
    next
      case False
      then have "wrr_cw ?es' i = wrr_cw ?es1 i" by (simp add: wrr_cw_def)
      then show ?thesis using False raised [OF i] by simp
    qed
  qed
  have pos: "0 < wrr_cw es ?best + wrr_weight h es ?best"
    using bpos raised [OF bH] by simp
  from sel bH len mb un cw pos show ?thesis by blast
qed

lemma backend_nth_cong:
  assumes "map backend es' = map backend es" and "i < length es"
  shows "backend (es' ! i) = backend (es ! i)"
proof -
  have "length es' = length es" using assms(1) by (metis length_map)
  then have "map backend es' ! i = backend (es' ! i)" using assms(2) by simp
  moreover have "map backend es ! i = backend (es ! i)" using assms(2) by simp
  ultimately show ?thesis using assms(1) by simp
qed

lemma wrr_healthy_cong:
  assumes "map backend es' = map backend es"
  shows "wrr_healthy h es' = wrr_healthy h es"
proof -
  have l: "length es' = length es" using assms by (metis length_map)
  show ?thesis
    unfolding wrr_healthy_def l
    by (rule filter_cong [OF refl]) (simp add: backend_nth_cong [OF assms])
qed

lemma wrr_weight_cong:
  assumes "map backend es' = map backend es" and "i < length es"
  shows "wrr_weight h es' i = wrr_weight h es i"
  by (simp add: wrr_weight_def backend_nth_cong [OF assms])

lemma wrr_total_cong:
  assumes "map backend es' = map backend es"
  shows "wrr_total h es' = wrr_total h es"
proof -
  have m: "map (wrr_weight h es') (wrr_healthy h es) = map (wrr_weight h es) (wrr_healthy h es)"
    by (rule map_cong [OF refl]) (simp add: wrr_weight_cong [OF assms] wrr_healthy_props)
  show ?thesis unfolding wrr_total_def wrr_healthy_cong [OF assms] m ..
qed

lemma wrr_bounded_cong:
  assumes "map backend es' = map backend es"
  shows "wrr_bounded h es' = wrr_bounded h es"
proof -
  have "\<forall>i\<in>set (wrr_healthy h es). wrr_weight h es' i = wrr_weight h es i"
    by (simp add: wrr_weight_cong [OF assms] wrr_healthy_props)
  then show ?thesis
    by (simp add: wrr_bounded_def wrr_healthy_cong [OF assms] wrr_total_cong [OF assms])
qed

lemma wrr_step_inv:
  assumes ne: "wrr_healthy h es \<noteq> []"
      and bd: "wrr_bounded h es"
      and inv: "wrr_inv h es"
      and sel: "wrr_select h es = Some (best, es')"
  shows "wrr_inv h es'"
proof -
  let ?H = "set (wrr_healthy h es)"
  let ?T = "wrr_total h es"
  from wrr_step [OF ne bd inv] sel
  have bH: "best \<in> ?H" and mb: "map backend es' = map backend es"
    and cw: "\<forall>i\<in>?H. wrr_cw es' i = wrr_cw es i + wrr_weight h es i - (if i = best then ?T else 0)"
    and pos: "0 < wrr_cw es best + wrr_weight h es best"
    by auto
  have lo: "\<forall>i\<in>?H. - ?T < wrr_cw es' i"
  proof
    fix i assume i: "i \<in> ?H"
    have "- ?T < wrr_cw es i" using inv i by (simp add: wrr_inv_def)
    moreover have "1 \<le> wrr_weight h es i" using bd i by (simp add: wrr_bounded_def)
    ultimately show "- ?T < wrr_cw es' i" using cw i pos by (cases "i = best") auto
  qed
  have "sum (wrr_cw es') ?H = sum (\<lambda>i. wrr_cw es i + wrr_weight h es i - (if i = best then ?T else 0)) ?H"
    by (rule sum.cong [OF refl]) (simp add: cw)
  also have "\<dots> = sum (wrr_cw es) ?H + sum (wrr_weight h es) ?H - sum (\<lambda>i. if i = best then ?T else 0) ?H"
    by (simp add: sum.distrib sum_subtractf)
  also have "sum (\<lambda>i. if i = best then ?T else 0) ?H = ?T"
    using bH by simp
  also have "sum (wrr_weight h es) ?H = ?T" by (simp add: wrr_total_set)
  also have "sum (wrr_cw es) ?H = 0" using inv by (simp add: wrr_inv_def wrr_cw_sum_set)
  finally have z: "sum (wrr_cw es') ?H = 0" by simp
  show ?thesis
    unfolding wrr_inv_def wrr_healthy_cong [OF mb] wrr_total_cong [OF mb]
    using lo z by (simp add: wrr_cw_sum_set)
qed

lemma wrr_picks_inv:
  assumes ne: "wrr_healthy h es \<noteq> []"
      and bd: "wrr_bounded h es"
      and inv: "wrr_inv h es"
  shows "length (fst (wrr_picks n h es)) = n
       \<and> set (fst (wrr_picks n h es)) \<subseteq> set (wrr_healthy h es)
       \<and> map backend (snd (wrr_picks n h es)) = map backend es
       \<and> (\<forall>i<length es. i \<notin> set (wrr_healthy h es) \<longrightarrow> snd (wrr_picks n h es) ! i = es ! i)
       \<and> (\<forall>i\<in>set (wrr_healthy h es).
             wrr_cw (snd (wrr_picks n h es)) i =
               wrr_cw es i + int n * wrr_weight h es i
               - wrr_total h es * int (count_list (fst (wrr_picks n h es)) i))
       \<and> wrr_inv h (snd (wrr_picks n h es))"
  using assms
proof (induction n arbitrary: es)
  case 0
  then show ?case by simp
next
  case (Suc n)
  from wrr_step [OF Suc.prems] obtain best es1 where
    sel: "wrr_select h es = Some (best, es1)"
    and bH: "best \<in> set (wrr_healthy h es)"
    and len: "length es1 = length es"
    and mb: "map backend es1 = map backend es"
    and un: "\<forall>i<length es. i \<notin> set (wrr_healthy h es) \<longrightarrow> es1 ! i = es ! i"
    and cw: "\<forall>i\<in>set (wrr_healthy h es).
               wrr_cw es1 i = wrr_cw es i + wrr_weight h es i
                              - (if i = best then wrr_total h es else 0)"
    by blast
  have H1: "wrr_healthy h es1 = wrr_healthy h es" by (rule wrr_healthy_cong [OF mb])
  have T1: "wrr_total h es1 = wrr_total h es" by (rule wrr_total_cong [OF mb])
  have ne1: "wrr_healthy h es1 \<noteq> []" using Suc.prems(1) H1 by simp
  have bd1: "wrr_bounded h es1" using Suc.prems(2) wrr_bounded_cong [OF mb] by simp
  have inv1: "wrr_inv h es1" by (rule wrr_step_inv [OF Suc.prems sel])
  note ih = Suc.IH [OF ne1 bd1 inv1, unfolded H1 T1 len]
  let ?r = "wrr_picks n h es1"
  have step: "wrr_picks (Suc n) h es = (best # fst ?r, snd ?r)"
    using sel by (simp add: split_beta)
  have W1: "\<forall>i\<in>set (wrr_healthy h es). wrr_weight h es1 i = wrr_weight h es i"
    by (simp add: wrr_weight_cong [OF mb] wrr_healthy_props)
  have c: "\<forall>i\<in>set (wrr_healthy h es).
             wrr_cw (snd ?r) i =
               wrr_cw es i + int (Suc n) * wrr_weight h es i
               - wrr_total h es * int (count_list (best # fst ?r) i)"
  proof
    fix i assume i: "i \<in> set (wrr_healthy h es)"
    have a: "wrr_cw (snd ?r) i = wrr_cw es1 i + int n * wrr_weight h es1 i
               - wrr_total h es * int (count_list (fst ?r) i)"
      using ih i by blast
    have b: "wrr_cw es1 i = wrr_cw es i + wrr_weight h es i
                              - (if i = best then wrr_total h es else 0)"
      using cw i by blast
    have w: "wrr_weight h es1 i = wrr_weight h es i" using W1 i by blast
    show "wrr_cw (snd ?r) i =
               wrr_cw es i + int (Suc n) * wrr_weight h es i
               - wrr_total h es * int (count_list (best # fst ?r) i)"
      unfolding a b w by (cases "i = best") (simp_all add: algebra_simps)
  qed
  have u: "\<forall>i<length es. i \<notin> set (wrr_healthy h es) \<longrightarrow> snd ?r ! i = es ! i"
    using ih un by simp
  show ?case
    unfolding step fst_conv snd_conv
    using ih bH mb c u by simp
qed

lemma wrr_period:
  assumes ne: "wrr_healthy h es \<noteq> []"
      and bd: "wrr_bounded h es"
      and zero: "\<forall>i\<in>set (wrr_healthy h es). wrr_cw es i = 0"
  shows "snd (wrr_picks (nat (wrr_total h es)) h es) = es
       \<and> (\<forall>i\<in>set (wrr_healthy h es).
             int (count_list (fst (wrr_picks (nat (wrr_total h es)) h es)) i) = wrr_weight h es i)"
proof -
  let ?H = "set (wrr_healthy h es)"
  let ?T = "wrr_total h es"
  let ?r = "wrr_picks (nat ?T) h es"
  obtain i0 where i0: "i0 \<in> ?H" using ne by (cases "wrr_healthy h es") auto
  have Tpos: "1 \<le> ?T" by (rule wrr_total_pos [OF bd i0])
  have inv: "wrr_inv h es"
    using zero Tpos by (simp add: wrr_inv_def wrr_cw_sum_set)
  note p = wrr_picks_inv [OF ne bd inv, of "nat ?T"]
  from p have mb: "map backend (snd ?r) = map backend es" by blast
  from p have inv': "wrr_inv h (snd ?r)" by blast
  from p have un: "\<forall>i<length es. i \<notin> ?H \<longrightarrow> snd ?r ! i = es ! i" by blast
  have cw: "\<forall>i\<in>?H. wrr_cw (snd ?r) i = ?T * (wrr_weight h es i - int (count_list (fst ?r) i))"
  proof
    fix i assume i: "i \<in> ?H"
    from p i have "wrr_cw (snd ?r) i = wrr_cw es i + int (nat ?T) * wrr_weight h es i
               - ?T * int (count_list (fst ?r) i)" by blast
    then show "wrr_cw (snd ?r) i = ?T * (wrr_weight h es i - int (count_list (fst ?r) i))"
      using zero i Tpos by (simp add: algebra_simps)
  qed
  have H': "wrr_healthy h (snd ?r) = wrr_healthy h es" by (rule wrr_healthy_cong [OF mb])
  have T': "wrr_total h (snd ?r) = ?T" by (rule wrr_total_cong [OF mb])
  have lo: "\<forall>i\<in>?H. - ?T < wrr_cw (snd ?r) i"
    using inv' unfolding wrr_inv_def H' T' by blast
  have z: "sum (wrr_cw (snd ?r)) ?H = 0"
    using inv' unfolding wrr_inv_def H' T' by (simp add: wrr_cw_sum_set)
  have nn: "\<forall>i\<in>?H. 0 \<le> wrr_cw (snd ?r) i"
  proof
    fix i assume i: "i \<in> ?H"
    let ?d = "wrr_weight h es i - int (count_list (fst ?r) i)"
    from lo i have "- ?T < wrr_cw (snd ?r) i" by blast
    moreover from cw i have "wrr_cw (snd ?r) i = ?T * ?d" by blast
    ultimately have "- ?T < ?T * ?d" by simp
    then have "?T * (- 1) < ?T * ?d" by simp
    then have "- 1 < ?d" using Tpos by (simp only: mult_less_cancel_left_pos)
    then have "0 \<le> ?d" by simp
    then have "0 \<le> ?T * ?d" using Tpos by simp
    moreover from cw i have "wrr_cw (snd ?r) i = ?T * ?d" by blast
    ultimately show "0 \<le> wrr_cw (snd ?r) i" by simp
  qed
  have "(sum (wrr_cw (snd ?r)) ?H = 0) = (\<forall>i\<in>?H. wrr_cw (snd ?r) i = 0)"
    by (rule sum_nonneg_eq_0_iff) (use nn in simp_all)
  with z have all0: "\<forall>i\<in>?H. wrr_cw (snd ?r) i = 0" by blast
  have cnt: "\<forall>i\<in>?H. int (count_list (fst ?r) i) = wrr_weight h es i"
  proof
    fix i assume i: "i \<in> ?H"
    from cw i have a: "wrr_cw (snd ?r) i = ?T * (wrr_weight h es i - int (count_list (fst ?r) i))"
      by blast
    from all0 i have b: "wrr_cw (snd ?r) i = 0" by blast
    from a b have "?T * (wrr_weight h es i - int (count_list (fst ?r) i)) = 0" by simp
    then show "int (count_list (fst ?r) i) = wrr_weight h es i" using Tpos by simp
  qed
  have len: "length (snd ?r) = length es" using mb by (metis length_map)
  have "snd ?r = es"
  proof (rule nth_equalityI [OF len])
    fix i assume "i < length (snd ?r)"
    then have il: "i < length es" using len by simp
    show "snd ?r ! i = es ! i"
    proof (cases "i \<in> ?H")
      case False
      then show ?thesis using un il by blast
    next
      case True
      from all0 True have "wrr_cw (snd ?r) i = 0" by blast
      moreover from zero True have "wrr_cw es i = 0" by blast
      ultimately have "sint (currentWeight (snd ?r ! i)) = sint (currentWeight (es ! i))"
        by (simp add: wrr_cw_def)
      then have "currentWeight (snd ?r ! i) = currentWeight (es ! i)"
        by (rule signed_word_eqI)
      moreover have "backend (snd ?r ! i) = backend (es ! i)"
        by (rule backend_nth_cong [OF mb il])
      ultimately show ?thesis by simp
    qed
  qed
  with cnt show ?thesis by blast
qed

lemma wrr_picks_None: "wrr_select h es = None \<Longrightarrow> wrr_picks n h es = ([], es)"
  by (cases n) simp_all

lemma wrr_picks_add:
  "wrr_picks (m + n) h es =
     (fst (wrr_picks m h es) @ fst (wrr_picks n h (snd (wrr_picks m h es))),
      snd (wrr_picks n h (snd (wrr_picks m h es))))"
proof (induction m arbitrary: es)
  case 0
  then show ?case by simp
next
  case (Suc m)
  show ?case
  proof (cases "wrr_select h es")
    case None
    then show ?thesis by (simp add: wrr_picks_None)
  next
    case (Some p)
    obtain best es1 where "p = (best, es1)" by (cases p)
    with Some show ?thesis using Suc.IH [of es1] by (simp add: split_beta)
  qed
qed

lemma wrr_picks_window:
  assumes ne: "wrr_healthy h es \<noteq> []"
      and bd: "wrr_bounded h es"
      and zero: "\<forall>i\<in>set (wrr_healthy h es). wrr_cw es i = 0"
      and i: "i \<in> set (wrr_healthy h es)"
  shows "int (count_list (window j (nat (wrr_total h es))
                  (fst (wrr_picks (j + nat (wrr_total h es)) h es))) i) = wrr_weight h es i"
proof -
  let ?T = "nat (wrr_total h es)"
  have Tpos: "1 \<le> wrr_total h es" by (rule wrr_total_pos [OF bd i])
  have inv: "wrr_inv h es"
    using zero Tpos by (simp add: wrr_inv_def wrr_cw_sum_set)
  note per = wrr_period [OF ne bd zero]
  let ?A = "fst (wrr_picks j h es)"
  let ?B = "fst (wrr_picks ?T h (snd (wrr_picks j h es)))"
  have lenA: "length ?A = j" using wrr_picks_inv [OF ne bd inv, of j] by blast
  have f1: "fst (wrr_picks (j + ?T) h es) = ?A @ ?B"
    by (simp add: wrr_picks_add [of j ?T])
  have f2: "fst (wrr_picks (?T + j) h es) = fst (wrr_picks ?T h es) @ ?A"
    using per by (simp add: wrr_picks_add [of ?T j])
  have lenAB: "length (?A @ ?B) = j + ?T"
    using wrr_picks_inv [OF ne bd inv, of "j + ?T"] unfolding f1 by blast
  then have lenB: "length ?B = ?T" using lenA by simp
  have w: "window j ?T (fst (wrr_picks (j + ?T) h es)) = ?B"
    unfolding f1 window_def using lenA lenB by simp
  have "count_list (?A @ ?B) i = count_list (fst (wrr_picks ?T h es) @ ?A) i"
    using f1 f2 by (simp add: add.commute)
  then have "count_list ?B i = count_list (fst (wrr_picks ?T h es)) i"
    by simp
  then show ?thesis
    unfolding w using per i by simp
qed

lemma wrr_collect_IncConns: "wrr_collect (IncConns h b) es = wrr_collect h es"
  unfolding wrr_collect_def IsHealthy_IncConns Weight_IncConns ..

lemma wrr_raise_IncConns: "wrr_raise (IncConns h b) hl es = wrr_raise h hl es"
  unfolding wrr_raise_def Weight_IncConns ..

lemma wrr_select_IncConns [simp]: "wrr_select (IncConns h b) es = wrr_select h es"
  unfolding wrr_select_def wrr_collect_IncConns wrr_raise_IncConns ..

lemma wrr_picks_IncConns [simp]: "wrr_picks n (IncConns h b) es = wrr_picks n h es"
  by (induction n arbitrary: es) (simp_all split: option.splits prod.splits)

lemma wrr_healthy_IncConns [simp]: "wrr_healthy (IncConns h b) es = wrr_healthy h es"
  by (simp add: wrr_healthy_def)

lemma wrr_select_ex:
  assumes "wrr_healthy h es \<noteq> []"
  shows "\<exists>best es'. wrr_select h es = Some (best, es')"
proof -
  obtain i0 rest where "wrr_healthy h es = i0 # rest"
    using assms by (cases "wrr_healthy h es") auto
  from wrr_select_Some [OF this] show ?thesis by blast
qed

lemma wrr_run_picks:
  assumes "wrr_healthy h (entries w) \<noteq> []"
  shows "fst (wrr_run n w h) =
           map (\<lambda>i. Inr (backend (entries w ! i))) (fst (wrr_picks n h (entries w)))
       \<and> entries (fst (snd (wrr_run n w h))) = snd (wrr_picks n h (entries w))"
  using assms
proof (induction n arbitrary: w h)
  case 0
  then show ?case by simp
next
  case (Suc n)
  from wrr_select_ex [OF Suc.prems] obtain best es1 where
    sel: "wrr_select h (entries w) = Some (best, es1)" by blast
  from wrr_select_backends [OF sel]
  have mb: "map backend es1 = map backend (entries w)"
    and bH: "best \<in> set (wrr_healthy h (entries w))" by simp_all
  have bl: "best < length (entries w)" using bH by (simp add: wrr_healthy_props)
  let ?b = "backend (es1 ! best)"
  let ?w1 = "w\<lparr>entries := es1\<rparr>"
  have b: "?b = backend (entries w ! best)" by (rule backend_nth_cong [OF mb bl])
  have nx: "WeightedRoundRobin_Next w h = (Inr ?b, ?w1, IncConns h ?b)"
    using sel by (simp add: WeightedRoundRobin_Next_def Let_def)
  have ne1: "wrr_healthy (IncConns h ?b) (entries ?w1) \<noteq> []"
    using Suc.prems wrr_healthy_cong [OF mb] by simp
  note ih = Suc.IH [OF ne1]
  have sub: "set (fst (wrr_picks n h es1)) \<subseteq> {..<length (entries w)}"
  proof
    fix x assume x: "x \<in> set (fst (wrr_picks n h es1))"
    show "x \<in> {..<length (entries w)}"
    proof (cases n)
      case 0
      with x show ?thesis by simp
    next
      case (Suc m)
      have "\<And>k es. set (fst (wrr_picks k h es)) \<subseteq> set (wrr_healthy h es)"
      proof -
        fix k es show "set (fst (wrr_picks k h es)) \<subseteq> set (wrr_healthy h es)"
        proof (induction k arbitrary: es)
          case 0
          then show ?case by simp
        next
          case (Suc k)
          show ?case
          proof (cases "wrr_select h es")
            case None
            then show ?thesis by simp
          next
            case (Some p)
            obtain b2 es2 where p: "p = (b2, es2)" by (cases p)
            from wrr_select_backends [of h es b2 es2] Some p
            have "map backend es2 = map backend es" "b2 \<in> set (wrr_healthy h es)" by simp_all
            with Suc.IH [of es2] wrr_healthy_cong [of es2 es h] Some p
            show ?thesis by (auto simp: split_beta)
          qed
        qed
      qed
      from this [of n es1] x wrr_healthy_cong [OF mb, of h]
      show ?thesis by (auto simp: wrr_healthy_props)
    qed
  qed
  have m: "map (\<lambda>i. Inr (backend (es1 ! i)) :: error + ptr) (fst (wrr_picks n h es1)) =
           map (\<lambda>i. Inr (backend (entries w ! i))) (fst (wrr_picks n h es1))"
  proof (rule map_cong [OF refl])
    fix x assume "x \<in> set (fst (wrr_picks n h es1))"
    then have "x < length (entries w)" using sub by auto
    then show "(Inr (backend (es1 ! x)) :: error + ptr) = Inr (backend (entries w ! x))"
      by (simp add: backend_nth_cong [OF mb])
  qed
  show ?case
    using ih m b nx sel by (simp add: split_beta)
qed

lemma wrr_best_first:
  assumes "sorted_wrt (<) (i0 # rest)"
  shows "\<forall>i\<in>set (i0 # rest). i < wrr_best es i0 rest \<longrightarrow>
           sint (currentWeight (es ! i)) < sint (currentWeight (es ! wrr_best es i0 rest))"
  using assms
proof (induction rest arbitrary: i0)
  case Nil
  then show ?case by (simp add: wrr_best_def)
next
  case (Cons i rest)
  show ?case
  proof (cases "currentWeight (es ! i0) <s currentWeight (es ! i)")
    case True
    then have e: "wrr_best es i0 (i # rest) = wrr_best es i rest"
      by (simp add: wrr_best_def)
    have s: "sorted_wrt (<) (i # rest)" using Cons.prems by simp
    have mx: "sint (currentWeight (es ! i)) \<le> sint (currentWeight (es ! wrr_best es i rest))"
      using wrr_best_props [of es i rest] by simp
    from True have "sint (currentWeight (es ! i0)) < sint (currentWeight (es ! i))"
      by (simp add: word_sless_alt)
    with mx have "sint (currentWeight (es ! i0)) < sint (currentWeight (es ! wrr_best es i rest))"
      by simp
    with Cons.IH [OF s] show ?thesis unfolding e by simp
  next
    case False
    then have e: "wrr_best es i0 (i # rest) = wrr_best es i0 rest"
      by (simp add: wrr_best_def)
    have s: "sorted_wrt (<) (i0 # rest)" using Cons.prems by simp
    have le: "sint (currentWeight (es ! i)) \<le> sint (currentWeight (es ! i0))"
      using False by (simp add: word_sless_alt)
    have lt: "i0 < i" using Cons.prems by simp
    have "i < wrr_best es i0 rest \<longrightarrow>
            sint (currentWeight (es ! i)) < sint (currentWeight (es ! wrr_best es i0 rest))"
    proof
      assume "i < wrr_best es i0 rest"
      with lt have "i0 < wrr_best es i0 rest" by simp
      with Cons.IH [OF s] have
        "sint (currentWeight (es ! i0)) < sint (currentWeight (es ! wrr_best es i0 rest))" by simp
      with le show "sint (currentWeight (es ! i)) < sint (currentWeight (es ! wrr_best es i0 rest))"
        by simp
    qed
    with Cons.IH [OF s] show ?thesis unfolding e by simp
  qed
qed

lemma wrr_healthy_sorted: "sorted_wrt (<) (wrr_healthy h es)"
  unfolding wrr_healthy_def by (rule sorted_wrt_filter) simp

lemma filter_by_index:
  "filter P xs = map ((!) xs) (filter (\<lambda>i. P (xs ! i)) [0..<length xs])"
proof -
  have "map ((!) xs) (filter (\<lambda>i. P (xs ! i)) [0..<length xs]) =
        filter P (map ((!) xs) [0..<length xs])"
    by (simp add: filter_map o_def)
  then show ?thesis by (simp add: map_nth)
qed

lemma healthySubset_indices:
  assumes mb: "map backend es = bs" and nb: "\<forall>b\<in>set bs. \<not> IsBlocked h b"
  shows "healthySubset h bs = map ((!) bs) (wrr_healthy h es)"
proof -
  have l: "length es = length bs" using mb by (metis length_map)
  have "healthySubset h bs = filter (IsHealthy h) bs"
    unfolding healthySubset_def using nb by (intro filter_cong) auto
  also have "\<dots> = map ((!) bs) (filter (\<lambda>i. IsHealthy h (bs ! i)) [0..<length bs])"
    by (rule filter_by_index)
  also have "filter (\<lambda>i. IsHealthy h (bs ! i)) [0..<length bs] = wrr_healthy h es"
    unfolding wrr_healthy_def l
  proof (rule filter_cong [OF refl])
    fix i assume "i \<in> set [0..<length bs]"
    then have "i < length es" using l by simp
    then have "bs ! i = backend (es ! i)" using mb by (metis nth_map)
    then show "IsHealthy h (bs ! i) = IsHealthy h (backend (es ! i))" by simp
  qed
  finally show ?thesis .
qed

lemma total_weight_wrr_total:
  assumes mb: "map backend es = bs" and nb: "\<forall>b\<in>set bs. \<not> IsBlocked h b"
  shows "total_weight h bs = wrr_total h es"
proof -
  have m: "map (\<lambda>i. sint (Weight (h (bs ! i)))) (wrr_healthy h es) =
        map (wrr_weight h es) (wrr_healthy h es)"
  proof (rule map_cong [OF refl])
    fix i assume "i \<in> set (wrr_healthy h es)"
    then have "i < length es" by (simp add: wrr_healthy_props)
    then have "bs ! i = backend (es ! i)" using mb by (metis nth_map)
    then show "sint (Weight (h (bs ! i))) = wrr_weight h es i" by (simp add: wrr_weight_def)
  qed
  have "map (\<lambda>b. sint (Weight (h b))) (map ((!) bs) (wrr_healthy h es)) =
        map (\<lambda>i. sint (Weight (h (bs ! i)))) (wrr_healthy h es)"
    by (simp add: o_def)
  then show ?thesis
    unfolding total_weight_def wrr_total_def healthySubset_indices [OF mb nb] m [symmetric]
    by (rule arg_cong)
qed

lemma NewWeightedRoundRobin_backends:
  "map backend (entries (NewWeightedRoundRobin bs)) = bs"
  by (simp add: NewWeightedRoundRobin_def o_def)

lemma NewWeightedRoundRobin_zero:
  "i < length bs \<Longrightarrow> wrr_cw (entries (NewWeightedRoundRobin bs)) i = 0"
  by (simp add: NewWeightedRoundRobin_def wrr_cw_def)

lemma count_list_filter_eq: "length (filter (\<lambda>x. x = y) xs) = count_list xs y"
  by (induction xs) auto

lemma wrr_window_counts:
  assumes nb: "\<forall>b\<in>set bs. \<not> IsBlocked h b"
      and w1: "\<forall>b\<in>set (healthySubset h bs). 1 \<le> sint (Weight (h b))"
      and nov: "int (length (healthySubset h bs)) * total_weight h bs < 2 ^ 63"
      and d: "distinct bs"
      and b: "b \<in> set (healthySubset h bs)"
  shows "int (count_list (window j (nat (total_weight h bs))
            (fst (wrr_run (j + nat (total_weight h bs)) (NewWeightedRoundRobin bs) h))) (Inr b))
         = sint (Weight (h b))"
proof -
  let ?w = "NewWeightedRoundRobin bs"
  let ?es = "entries ?w"
  let ?H = "wrr_healthy h ?es"
  let ?T = "nat (total_weight h bs)"
  have mb: "map backend ?es = bs" by (rule NewWeightedRoundRobin_backends)
  have l: "length ?es = length bs" using mb by (metis length_map)
  have hs: "healthySubset h bs = map ((!) bs) ?H" by (rule healthySubset_indices [OF mb nb])
  have T: "total_weight h bs = wrr_total h ?es" by (rule total_weight_wrr_total [OF mb nb])
  from b obtain i0 where i0: "i0 \<in> set ?H" "b = bs ! i0" unfolding hs by auto
  have i0l: "i0 < length bs" using i0(1) l by (simp add: wrr_healthy_props)
  have ne: "?H \<noteq> []" using i0(1) by auto
  have wt: "\<And>i. i \<in> set ?H \<Longrightarrow> wrr_weight h ?es i = sint (Weight (h (bs ! i)))"
  proof -
    fix i assume "i \<in> set ?H"
    then have "i < length ?es" by (simp add: wrr_healthy_props)
    then have "backend (?es ! i) = bs ! i" using mb by (metis nth_map)
    then show "wrr_weight h ?es i = sint (Weight (h (bs ! i)))" by (simp add: wrr_weight_def)
  qed
  have bd: "wrr_bounded h ?es"
    unfolding wrr_bounded_def
  proof
    show "\<forall>i\<in>set ?H. 1 \<le> wrr_weight h ?es i"
    proof
      fix i assume i: "i \<in> set ?H"
      then have "bs ! i \<in> set (healthySubset h bs)" unfolding hs by simp
      with w1 show "1 \<le> wrr_weight h ?es i" by (simp add: wt [OF i])
    qed
    have "length (healthySubset h bs) = length ?H" unfolding hs by simp
    with nov show "int (length ?H) * wrr_total h ?es < 2 ^ 63" by (simp add: T)
  qed
  have zero: "\<forall>i\<in>set ?H. wrr_cw ?es i = 0"
    using l by (simp add: NewWeightedRoundRobin_zero wrr_healthy_props)
  let ?ps = "fst (wrr_picks (j + ?T) h ?es)"
  let ?g = "\<lambda>i. (Inr (backend (?es ! i)) :: error + ptr)"
  have run: "fst (wrr_run (j + ?T) ?w h) = map ?g ?ps"
    using wrr_run_picks [OF ne, of "j + ?T"] by blast
  have Tpos: "1 \<le> wrr_total h ?es" by (rule wrr_total_pos [OF bd i0(1)])
  have inv: "wrr_inv h ?es" using zero Tpos by (simp add: wrr_inv_def wrr_cw_sum_set)
  have sub: "set ?ps \<subseteq> set ?H" using wrr_picks_inv [OF ne bd inv, of "j + ?T"] by blast
  let ?qs = "window j ?T ?ps"
  have qsub: "set ?qs \<subseteq> set ?H"
    using sub unfolding window_def
    by (meson set_take_subset set_drop_subset subset_trans)
  have wm: "window j ?T (map ?g ?ps) = map ?g ?qs"
    by (simp add: window_def take_map drop_map)
  have "count_list (map ?g ?qs) (Inr b) = length (filter (\<lambda>x. ?g x = Inr b) ?qs)"
    by (rule count_list_map_filter)
  also have "filter (\<lambda>x. ?g x = Inr b) ?qs = filter (\<lambda>x. x = i0) ?qs"
  proof (rule filter_cong [OF refl])
    fix x assume "x \<in> set ?qs"
    then have xH: "x \<in> set ?H" using qsub by auto
    then have xl: "x < length bs" using l by (simp add: wrr_healthy_props)
    then have "backend (?es ! x) = bs ! x" using mb l by (metis nth_map)
    then show "(?g x = Inr b) = (x = i0)"
      using nth_eq_iff_index_eq [OF d xl i0l] i0(2) by simp
  qed
  also have "length (filter (\<lambda>x. x = i0) ?qs) = count_list ?qs i0"
    by (rule count_list_filter_eq)
  finally have c: "count_list (map ?g ?qs) (Inr b) = count_list ?qs i0" .
  have "int (count_list ?qs i0) = wrr_weight h ?es i0"
    using wrr_picks_window [OF ne bd zero i0(1), of j] by (simp add: T)
  then show ?thesis
    unfolding run wm c using wt [OF i0(1)] i0(2) by simp
qed

lemma wrr_next_step:
  assumes ne: "wrr_healthy h (entries w) \<noteq> []"
  shows "\<exists>best. best \<in> set (wrr_healthy h (entries w))
      \<and> (\<forall>i\<in>set (wrr_healthy h (entries w)).
            sint (currentWeight (map (raise_entry h) (entries w) ! i))
              \<le> sint (currentWeight (map (raise_entry h) (entries w) ! best)))
      \<and> (\<forall>i\<in>set (wrr_healthy h (entries w)). i < best \<longrightarrow>
            sint (currentWeight (map (raise_entry h) (entries w) ! i))
              < sint (currentWeight (map (raise_entry h) (entries w) ! best)))
      \<and> WeightedRoundRobin_Next w h =
          (Inr (backend (entries w ! best)),
           w\<lparr>entries := (map (raise_entry h) (entries w))
              [best := (map (raise_entry h) (entries w) ! best)
                 \<lparr>currentWeight := currentWeight (map (raise_entry h) (entries w) ! best)
                    - sum_list (map (\<lambda>i. Weight (h (backend (entries w ! i))))
                                 (wrr_healthy h (entries w)))\<rparr>]\<rparr>,
           IncConns h (backend (entries w ! best)))"
proof -
  let ?es = "entries w"
  let ?es1 = "map (raise_entry h) ?es"
  obtain i0 rest where H: "wrr_healthy h ?es = i0 # rest"
    using ne by (cases "wrr_healthy h ?es") auto
  let ?best = "wrr_best ?es1 i0 rest"
  have s: "sorted_wrt (<) (i0 # rest)" using wrr_healthy_sorted [of h ?es] H by simp
  have bH: "?best \<in> set (wrr_healthy h ?es)" using wrr_best_props [of ?es1 i0 rest] H by simp
  then have bl: "?best < length ?es" by (simp add: wrr_healthy_props)
  have mx: "\<forall>i\<in>set (wrr_healthy h ?es).
      sint (currentWeight (?es1 ! i)) \<le> sint (currentWeight (?es1 ! ?best))"
    using wrr_best_props [of ?es1 i0 rest] H by simp
  have fs: "\<forall>i\<in>set (wrr_healthy h ?es). i < ?best \<longrightarrow>
      sint (currentWeight (?es1 ! i)) < sint (currentWeight (?es1 ! ?best))"
    using wrr_best_first [OF s, of ?es1] H by simp
  have nx: "WeightedRoundRobin_Next w h =
          (Inr (backend (?es ! ?best)),
           w\<lparr>entries := ?es1
              [?best := (?es1 ! ?best)
                 \<lparr>currentWeight := currentWeight (?es1 ! ?best)
                    - sum_list (map (\<lambda>i. Weight (h (backend (?es ! i)))) (wrr_healthy h ?es))\<rparr>]\<rparr>,
           IncConns h (backend (?es ! ?best)))"
    unfolding WeightedRoundRobin_Next_def wrr_select_Some [OF H] H
    using bl by (simp add: Let_def)
  from bH mx fs nx show ?thesis by blast
qed

text \<open>
  C4, as the claim states it, fails for a window that follows a change of the selectable
  set: the current weights the earlier calls left stay in the entries. With the weights
  3, 1, 1 and the third backend down, two calls pick the first backend twice and leave
  the second one's current weight at 2. The monitor then finds the first backend down
  and the third one up. From here on the selectable set is the second and the third
  backend, of total weight 2, and no flag changes again, but the next window of two calls
  picks the second backend twice and the third one never.
\<close>

theorem wrr_window_after_flap:
  "fst flap_run = [Inr 0, Inr 0]
   \<and> healthySubset flapped_heap [0, 1, 2] = [1, 2]
   \<and> total_weight flapped_heap [0, 1, 2] = 2
   \<and> fst (wrr_run 2 (fst (snd flap_run)) flapped_heap) = [Inr 1, Inr 1]
   \<and> healthySubset (snd (snd (wrr_run 2 (fst (snd flap_run)) flapped_heap))) [0, 1, 2] = [1, 2]
   \<and> count_list (window 0 2 (fst (wrr_run (0 + 2) (fst (snd flap_run)) flapped_heap))) (Inr 2) = 0"
  by code_simp

text \<open>
  C4, amended. For a list of different backends none of which is blocked, whose
  selectable backends have weights of at least 1 and a total weight \<open>T\<close> with
  (number of selectable backends) * \<open>T\<close> below \<open>2^63\<close>, and for a picker built over that
  list whose health flags have not changed since: every window of \<open>T\<close> consecutive \<open>Next\<close>
  calls (after any number \<open>j\<close> of earlier calls) returns each selectable backend exactly
  as many times as its weight. Each call, in any state of the picker over that list,
  adds its weight to the current weight of every healthy entry, picks the healthy entry
  whose raised current weight is greatest, the earliest one among equals, subtracts the
  total weight of the healthy entries from the winner's current weight, and adds one to
  the winner's active connections.
\<close>

theorem wrr_window:
  assumes nb: "\<forall>b\<in>set bs. \<not> IsBlocked h b"
      and w1: "\<forall>b\<in>set (healthySubset h bs). 1 \<le> sint (Weight (h b))"
      and nov: "int (length (healthySubset h bs)) * total_weight h bs < 2 ^ 63"
      and d: "distinct bs"
  shows "(\<forall>b\<in>set (healthySubset h bs).
            int (count_list (window j (nat (total_weight h bs))
                   (fst (wrr_run (j + nat (total_weight h bs)) (NewWeightedRoundRobin bs) h)))
                   (Inr b))
            = sint (Weight (h b)))
       \<and> (\<forall>w::WeightedRoundRobin. map backend (entries w) = bs \<and> healthySubset h bs \<noteq> [] \<longrightarrow>
            (\<exists>best. best \<in> set (wrr_healthy h (entries w))
              \<and> (\<forall>i\<in>set (wrr_healthy h (entries w)).
                    sint (currentWeight (map (raise_entry h) (entries w) ! i))
                      \<le> sint (currentWeight (map (raise_entry h) (entries w) ! best)))
              \<and> (\<forall>i\<in>set (wrr_healthy h (entries w)). i < best \<longrightarrow>
                    sint (currentWeight (map (raise_entry h) (entries w) ! i))
                      < sint (currentWeight (map (raise_entry h) (entries w) ! best)))
              \<and> WeightedRoundRobin_Next w h =
                  (Inr (backend (entries w ! best)),
                   w\<lparr>entries := (map (raise_entry h) (entries w))
                      [best := (map (raise_entry h) (entries w) ! best)
                         \<lparr>currentWeight := currentWeight (map (raise_entry h) (entries w) ! best)
                            - sum_list (map (\<lambda>i. Weight (h (backend (entries w ! i))))
                                         (wrr_healthy h (entries w)))\<rparr>]\<rparr>,
                   IncConns h (backend (entries w ! best)))))"
proof (intro conjI ballI allI impI)
  fix b assume "b \<in> set (healthySubset h bs)"
  then show "int (count_list (window j (nat (total_weight h bs))
                   (fst (wrr_run (j + nat (total_weight h bs)) (NewWeightedRoundRobin bs) h)))
                   (Inr b))
            = sint (Weight (h b))"
    by (rule wrr_window_counts [OF nb w1 nov d])
next
  fix w :: WeightedRoundRobin assume a: "map backend (entries w) = bs \<and> healthySubset h bs \<noteq> []"
  then have "wrr_healthy h (entries w) \<noteq> []"
    using healthySubset_indices [OF _ nb, of "entries w"] by auto
  then show "\<exists>best. best \<in> set (wrr_healthy h (entries w))
              \<and> (\<forall>i\<in>set (wrr_healthy h (entries w)).
                    sint (currentWeight (map (raise_entry h) (entries w) ! i))
                      \<le> sint (currentWeight (map (raise_entry h) (entries w) ! best)))
              \<and> (\<forall>i\<in>set (wrr_healthy h (entries w)). i < best \<longrightarrow>
                    sint (currentWeight (map (raise_entry h) (entries w) ! i))
                      < sint (currentWeight (map (raise_entry h) (entries w) ! best)))
              \<and> WeightedRoundRobin_Next w h =
                  (Inr (backend (entries w ! best)),
                   w\<lparr>entries := (map (raise_entry h) (entries w))
                      [best := (map (raise_entry h) (entries w) ! best)
                         \<lparr>currentWeight := currentWeight (map (raise_entry h) (entries w) ! best)
                            - sum_list (map (\<lambda>i. Weight (h (backend (entries w ! i))))
                                         (wrr_healthy h (entries w)))\<rparr>]\<rparr>,
                   IncConns h (backend (entries w ! best)))"
    by (rule wrr_next_step)
qed

lemma weighted_heap_facts:
  "healthySubset weighted_heap [0, 1] = [0, 1]"
  "total_weight weighted_heap [0, 1] = 4"
  "\<forall>b\<in>set [0, 1]. \<not> IsBlocked weighted_heap b"
  "sint (Weight (weighted_heap 0)) = 3"
  "sint (Weight (weighted_heap 1)) = 1"
  by (simp_all add: total_weight_def healthySubset_def weighted_heap_def heap_of_def
        example_backend_def IsHealthy_def IsBlocked_def)

theorem wrr_window_witness:
  "int (count_list (window 2 4 (fst (wrr_run (2 + 4) (NewWeightedRoundRobin [0, 1]) weighted_heap)))
        (Inr 0)) = 3
   \<and> int (count_list (window 2 4 (fst (wrr_run (2 + 4) (NewWeightedRoundRobin [0, 1]) weighted_heap)))
        (Inr 1)) = 1"
proof -
  have w1: "\<forall>b\<in>set (healthySubset weighted_heap [0, 1]). 1 \<le> sint (Weight (weighted_heap b))"
    unfolding weighted_heap_facts(1) using weighted_heap_facts(4,5) by simp
  have nov: "int (length (healthySubset weighted_heap [0, 1])) * total_weight weighted_heap [0, 1] < 2 ^ 63"
    unfolding weighted_heap_facts(1,2) by simp
  have d: "distinct [0, 1 :: nat]" by simp
  note t = wrr_window [OF weighted_heap_facts(3) w1 nov d, of 2, unfolded weighted_heap_facts(1,2)]
  from t have a: "int (count_list (window 2 (nat 4)
       (fst (wrr_run (2 + nat 4) (NewWeightedRoundRobin [0, 1]) weighted_heap))) (Inr 0))
       = sint (Weight (weighted_heap 0))" by simp
  from t have b: "int (count_list (window 2 (nat 4)
       (fst (wrr_run (2 + nat 4) (NewWeightedRoundRobin [0, 1]) weighted_heap))) (Inr 1))
       = sint (Weight (weighted_heap 1))" by simp
  from a b weighted_heap_facts(4,5) show ?thesis by simp
qed

section \<open>Weighted round robin: the sum of the current weights\<close>

text \<open>
  \<open>Next\<close> changes the heap only by raising the winner's active connections: the health
  flags and the weights, which are all that the selection reads, stay as they are.
\<close>

lemma wrr_run_heap:
  "IsHealthy (snd (snd (wrr_run n w h))) x = IsHealthy h x
   \<and> Weight (snd (snd (wrr_run n w h)) x) = Weight (h x)"
proof (induction n arbitrary: w h)
  case 0
  then show ?case by simp
next
  case (Suc n)
  show ?case
  proof (cases "wrr_select h (entries w)")
    case None
    then have nx: "WeightedRoundRobin_Next w h = (Inl ErrNoHealthyBackend, w, h)"
      by (simp add: WeightedRoundRobin_Next_def)
    show ?thesis using Suc.IH [of w h] nx by (simp add: split_beta)
  next
    case (Some p)
    obtain best es' where p: "p = (best, es')" by (cases p)
    let ?b = "backend (es' ! best)"
    have nx: "WeightedRoundRobin_Next w h = (Inr ?b, w\<lparr>entries := es'\<rparr>, IncConns h ?b)"
      using Some p by (simp add: WeightedRoundRobin_Next_def Let_def)
    show ?thesis using Suc.IH [of "w\<lparr>entries := es'\<rparr>" "IncConns h ?b"] nx by (simp add: split_beta)
  qed
qed

lemma wrr_heap_cong:
  assumes "\<And>x. IsHealthy h' x = IsHealthy h x" and "\<And>x. Weight (h' x) = Weight (h x)"
  shows "wrr_select h' es = wrr_select h es" and "raise_entry h' = raise_entry h"
    and "wrr_healthy h' es = wrr_healthy h es"
proof -
  show "wrr_select h' es = wrr_select h es"
    unfolding wrr_select_def wrr_collect_def wrr_raise_def assms ..
  show "raise_entry h' = raise_entry h"
    by (rule ext) (simp add: raise_entry_def assms)
  show "wrr_healthy h' es = wrr_healthy h es"
    by (simp add: wrr_healthy_def assms)
qed

lemma wrr_run_None:
  assumes "wrr_select h (entries w) = None"
  shows "snd (wrr_run n w h) = (w, h)"
proof (induction n)
  case 0
  then show ?case by simp
next
  case (Suc n)
  have nx: "WeightedRoundRobin_Next w h = (Inl ErrNoHealthyBackend, w, h)"
    using assms by (simp add: WeightedRoundRobin_Next_def)
  show ?case using Suc.IH nx by (simp add: split_beta)
qed

lemma wrr_sum_healthy:
  assumes "wrr_healthy h es = [0..<length es]"
  shows "(\<Sum>i\<leftarrow>wrr_healthy h es. wrr_cw es i) = (\<Sum>e\<leftarrow>es. sint (currentWeight e))"
  unfolding assms wrr_cw_def by (rule sum_nth_upt)

lemma wrr_all_healthy_total:
  assumes "wrr_healthy h es = [0..<length es]"
  shows "wrr_total h es = (\<Sum>b\<leftarrow>map backend es. sint (Weight (h b)))"
proof -
  have "wrr_total h es = (\<Sum>i\<leftarrow>[0..<length es]. sint (Weight (h (backend (es ! i)))))"
    by (simp add: wrr_total_def assms wrr_weight_def)
  also have "\<dots> = (\<Sum>e\<leftarrow>es. sint (Weight (h (backend e))))"
    by (rule sum_nth_upt)
  finally show ?thesis by (simp add: o_def)
qed

lemma wrr_zero_sum_step:
  assumes H: "wrr_healthy h es = [0..<length es]"
      and ne: "es \<noteq> []"
      and bd: "wrr_bounded h es"
      and inv: "wrr_inv h es"
      and td: "tot = sum_list (map (\<lambda>e. Weight (h (backend e))) es)"
  shows "\<exists>best<length es.
           sint tot = wrr_total h es
         \<and> (\<forall>i<length es. sint (currentWeight (map (raise_entry h) es ! i))
                             = sint (currentWeight (es ! i)) + sint (Weight (h (backend (es ! i)))))
         \<and> (\<Sum>e\<leftarrow>map (raise_entry h) es. sint (currentWeight e)) = wrr_total h es
         \<and> wrr_select h es =
             Some (best, (map (raise_entry h) es)
                     [best := (map (raise_entry h) es ! best)
                        \<lparr>currentWeight := currentWeight (map (raise_entry h) es ! best) - tot\<rparr>])
         \<and> sint (currentWeight (map (raise_entry h) es ! best) - tot)
             = sint (currentWeight (map (raise_entry h) es ! best)) - wrr_total h es
         \<and> wrr_inv h ((map (raise_entry h) es)
                     [best := (map (raise_entry h) es ! best)
                        \<lparr>currentWeight := currentWeight (map (raise_entry h) es ! best) - tot\<rparr>])"
proof -
  let ?es1 = "map (raise_entry h) es"
  let ?T = "wrr_total h es"
  have neH: "wrr_healthy h es \<noteq> []" using H ne by simp
  then obtain i0 rest where C: "wrr_healthy h es = i0 # rest" by (cases "wrr_healthy h es") auto
  let ?best = "wrr_best ?es1 i0 rest"
  let ?tot = "sum_list (map (\<lambda>i. Weight (h (backend (es ! i)))) (i0 # rest))"
  let ?es' = "?es1[?best := (?es1 ! ?best)\<lparr>currentWeight := currentWeight (?es1 ! ?best) - ?tot\<rparr>]"
  have sel: "wrr_select h es = Some (?best, ?es')" by (rule wrr_select_Some [OF C])
  have bH: "?best \<in> set (wrr_healthy h es)" using wrr_best_props [of ?es1 i0 rest] C by simp
  then have bl: "?best < length es" by (simp add: wrr_healthy_props)
  have tt: "?tot = tot"
    unfolding td C [symmetric] H by (rule sum_nth_upt)
  have tot: "sint ?tot = ?T" using wrr_tot_sint [OF bd neH] C by simp
  have raised: "\<forall>i<length es. wrr_cw ?es1 i = wrr_cw es i + wrr_weight h es i"
    using wrr_raised_cw [OF bd inv] H by simp
  then have r1: "\<forall>i<length es. sint (currentWeight (?es1 ! i))
                             = sint (currentWeight (es ! i)) + sint (Weight (h (backend (es ! i))))"
    by (simp add: wrr_cw_def wrr_weight_def)
  have z: "(\<Sum>i\<leftarrow>wrr_healthy h es. wrr_cw es i) = 0" using inv by (simp add: wrr_inv_def)
  have "(\<Sum>e\<leftarrow>?es1. sint (currentWeight e)) = (\<Sum>i\<leftarrow>[0..<length ?es1]. wrr_cw ?es1 i)"
    unfolding wrr_cw_def by (rule sum_nth_upt [symmetric])
  also have "\<dots> = (\<Sum>i\<leftarrow>[0..<length es]. wrr_cw es i + wrr_weight h es i)"
    using raised by (auto intro!: arg_cong [where f = sum_list] map_cong)
  also have "\<dots> = (\<Sum>i\<leftarrow>[0..<length es]. wrr_cw es i) + (\<Sum>i\<leftarrow>[0..<length es]. wrr_weight h es i)"
    by (simp add: sum_list_addf)
  also have "\<dots> = ?T" using z by (simp add: H wrr_total_def)
  finally have r2: "(\<Sum>e\<leftarrow>?es1. sint (currentWeight e)) = ?T" .
  from wrr_step [OF neH bd inv] sel
  have cw: "\<forall>i\<in>set (wrr_healthy h es).
               wrr_cw ?es' i = wrr_cw es i + wrr_weight h es i - (if i = ?best then ?T else 0)"
    by auto
  from cw bH have "wrr_cw ?es' ?best = wrr_cw es ?best + wrr_weight h es ?best - ?T" by auto
  moreover have "wrr_cw ?es' ?best = sint (currentWeight (?es1 ! ?best) - ?tot)"
    using bl by (simp add: wrr_cw_def)
  moreover have "wrr_cw ?es1 ?best = wrr_cw es ?best + wrr_weight h es ?best"
    using raised bl by blast
  ultimately have sub: "sint (currentWeight (?es1 ! ?best) - ?tot)
             = sint (currentWeight (?es1 ! ?best)) - ?T"
    by (simp add: wrr_cw_def)
  have inv': "wrr_inv h ?es'" by (rule wrr_step_inv [OF neH bd inv sel])
  from bl tot r1 r2 sel sub inv' show ?thesis unfolding tt by blast
qed

lemma wrr_sum_New: "wrr_sum (NewWeightedRoundRobin bs) = 0"
  by (induction bs) (simp_all add: wrr_sum_def NewWeightedRoundRobin_def)

text \<open>
  C10, as the claim states it, fails when the additions overflow: \<open>currentWeight\<close> and
  the total are Go \<open>int\<close> values of 64 bits. With two healthy backends of weight \<open>2^62\<close>
  each the total \<open>2^63\<close> wraps around to \<open>-2^63\<close>; two calls both return the first
  backend and leave both current weights at \<open>-2^63\<close>, whose sum is \<open>-2^64\<close>, not 0. A
  small total does not exclude this when weights are negative: with the weights \<open>2^62\<close>,
  \<open>2^62\<close>, \<open>1 - 2^62\<close> and \<open>1 - 2^62\<close> the total is 2, and the second call raises the
  second entry from \<open>2^62\<close> to \<open>2^63\<close>, which wraps around; the current weights then sum
  to \<open>-2^64\<close> again.
\<close>

theorem wrr_sum_overflows:
  "IsHealthy heavy_heap 0 \<and> IsHealthy heavy_heap 1
   \<and> sint (Weight (heavy_heap 0)) = 2 ^ 62 \<and> sint (Weight (heavy_heap 1)) = 2 ^ 62
   \<and> fst (wrr_run 2 (NewWeightedRoundRobin [0, 1]) heavy_heap) = [Inr 0, Inr 0]
   \<and> map (\<lambda>e. sint (currentWeight e))
         (entries (fst (snd (wrr_run 2 (NewWeightedRoundRobin [0, 1]) heavy_heap))))
       = [- (2 ^ 63), - (2 ^ 63)]
   \<and> wrr_sum (fst (snd (wrr_run 2 (NewWeightedRoundRobin [0, 1]) heavy_heap))) = - (2 ^ 64)
   \<and> map (IsHealthy signed_heap) [0, 1, 2, 3] = [True, True, True, True]
   \<and> map (\<lambda>b. sint (Weight (signed_heap b))) [0, 1, 2, 3]
       = [2 ^ 62, 2 ^ 62, 1 - 2 ^ 62, 1 - 2 ^ 62]
   \<and> int (length [0, 1, 2, 3 :: nat]) * (\<Sum>b\<leftarrow>[0, 1, 2, 3]. sint (Weight (signed_heap b))) = 8
   \<and> fst (wrr_run 2 (NewWeightedRoundRobin [0, 1, 2, 3]) signed_heap) = [Inr 0, Inr 0]
   \<and> map (\<lambda>e. sint (currentWeight e))
         (entries (fst (snd (wrr_run 2 (NewWeightedRoundRobin [0, 1, 2, 3]) signed_heap))))
       = [2 ^ 63 - 4, - (2 ^ 63), 2 - 2 ^ 63, 2 - 2 ^ 63]
   \<and> wrr_sum (fst (snd (wrr_run 2 (NewWeightedRoundRobin [0, 1, 2, 3]) signed_heap))) = - (2 ^ 64)"
  by (simp add: wrr_sum_def heavy_heap_def signed_heap_def heap_of_def example_backend_def
      WeightedRoundRobin_Next_def wrr_select_def wrr_collect_def wrr_raise_def wrr_best_def
      NewWeightedRoundRobin_def IsHealthy_def IncConns_def Let_def word_sless_alt numeral_2_eq_2
      numeral_3_eq_3)

text \<open>
  C10, amended. When every backend of the list is healthy and has a weight of at least
  1, and (number of backends) * (total weight) is below \<open>2^63\<close>, the sum of \<open>currentWeight\<close>
  over all entries is 0 after construction, after any number \<open>n\<close> of consecutive \<open>Next\<close>
  calls, and after the call that follows them. That call, on a list that is not empty,
  computes the total weight \<open>tot\<close> of the entries without overflow, adds its weight to
  the current weight of every entry, so that the current weights sum to the total, then
  subtracts \<open>tot\<close> from the winner's current weight alone, again without overflow, and
  returns the winner.
\<close>

theorem wrr_zero_sum:
  assumes ah: "\<forall>b\<in>set bs. IsHealthy h b"
      and w1: "\<forall>b\<in>set bs. 1 \<le> sint (Weight (h b))"
      and nov: "int (length bs) * (\<Sum>b\<leftarrow>bs. sint (Weight (h b))) < 2 ^ 63"
      and run: "wrr_run n (NewWeightedRoundRobin bs) h = (rs, w, h')"
  shows "wrr_sum (NewWeightedRoundRobin bs) = 0
       \<and> wrr_sum w = 0
       \<and> wrr_sum (fst (snd (WeightedRoundRobin_Next w h'))) = 0
       \<and> (bs \<noteq> [] \<longrightarrow>
            (\<exists>best<length bs. \<exists>tot.
                tot = sum_list (map (\<lambda>b. Weight (h' b)) bs)
              \<and> sint tot = (\<Sum>b\<leftarrow>bs. sint (Weight (h b)))
              \<and> (\<forall>i<length bs.
                    sint (currentWeight (map (raise_entry h') (entries w) ! i))
                      = sint (currentWeight (entries w ! i)) + sint (Weight (h (bs ! i))))
              \<and> (\<Sum>e\<leftarrow>map (raise_entry h') (entries w). sint (currentWeight e))
                    = (\<Sum>b\<leftarrow>bs. sint (Weight (h b)))
              \<and> WeightedRoundRobin_Next w h' =
                  (Inr (bs ! best),
                   w\<lparr>entries := (map (raise_entry h') (entries w))
                      [best := (map (raise_entry h') (entries w) ! best)
                         \<lparr>currentWeight :=
                            currentWeight (map (raise_entry h') (entries w) ! best) - tot\<rparr>]\<rparr>,
                   IncConns h' (bs ! best))
              \<and> sint (currentWeight (map (raise_entry h') (entries w) ! best) - tot)
                    = sint (currentWeight (map (raise_entry h') (entries w) ! best))
                      - (\<Sum>b\<leftarrow>bs. sint (Weight (h b)))))"
proof -
  let ?new = "NewWeightedRoundRobin bs"
  let ?ini = "entries ?new"
  let ?T = "\<Sum>b\<leftarrow>bs. sint (Weight (h b))"
  have mb0: "map backend ?ini = bs" by (rule NewWeightedRoundRobin_backends)
  have l0: "length ?ini = length bs" using mb0 by (metis length_map)
  have w: "w = fst (snd (wrr_run n ?new h))" and h': "h' = snd (snd (wrr_run n ?new h))"
    using run by simp_all
  have hl: "\<And>x. IsHealthy h' x = IsHealthy h x" and hw: "\<And>x. Weight (h' x) = Weight (h x)"
    unfolding h' using wrr_run_heap by blast+
  have z0: "wrr_sum ?new = 0" by (rule wrr_sum_New)
  show ?thesis
  proof (cases "bs = []")
    case True
    then have "wrr_healthy h ?ini = []" by (simp add: wrr_healthy_def NewWeightedRoundRobin_def)
    then have none: "wrr_select h ?ini = None" by (rule wrr_select_None)
    from wrr_run_None [OF none, of n] run have ww: "w = ?new" and "h' = h" by simp_all
    have "WeightedRoundRobin_Next w h' = (Inl ErrNoHealthyBackend, w, h')"
      using none ww \<open>h' = h\<close> by (simp add: WeightedRoundRobin_Next_def)
    then show ?thesis using z0 ww True by simp
  next
    case False
    have ah0: "\<forall>e\<in>set ?ini. IsHealthy h (backend e)"
      using ah by (simp add: NewWeightedRoundRobin_def)
    have H0: "wrr_healthy h ?ini = [0..<length ?ini]" by (rule all_healthy_indices [OF ah0])
    have ne0: "wrr_healthy h ?ini \<noteq> []" using H0 l0 False by simp
    have T0: "wrr_total h ?ini = ?T"
      using wrr_all_healthy_total [OF H0] mb0 by simp
    have wt0: "\<And>i. i < length bs \<Longrightarrow> wrr_weight h ?ini i = sint (Weight (h (bs ! i)))"
      by (simp add: wrr_weight_def NewWeightedRoundRobin_def)
    have bd0: "wrr_bounded h ?ini"
      unfolding wrr_bounded_def H0 T0 using w1 nov l0 by (simp add: wt0)
    have Tpos: "1 \<le> wrr_total h ?ini"
      by (rule wrr_total_pos [OF bd0, of 0]) (use H0 l0 False in simp)
    have inv0: "wrr_inv h ?ini"
      unfolding wrr_inv_def using Tpos l0
      by (simp add: NewWeightedRoundRobin_zero wrr_healthy_props wrr_cw_sum_set)
    let ?es = "entries w"
    have es: "?es = snd (wrr_picks n h ?ini)"
      unfolding w using wrr_run_picks [OF ne0, of n] by blast
    from wrr_picks_inv [OF ne0 bd0 inv0, of n]
    have mb: "map backend ?es = map backend ?ini" and inv: "wrr_inv h ?es"
      unfolding es by blast+
    have mbs: "map backend ?es = bs" using mb mb0 by simp
    have l: "length ?es = length bs" using mbs by (metis length_map)
    have H: "wrr_healthy h ?es = [0..<length ?es]"
      using wrr_healthy_cong [OF mb, of h] H0 l l0 by simp
    have T: "wrr_total h ?es = ?T" using wrr_total_cong [OF mb, of h] T0 by simp
    have bd: "wrr_bounded h ?es" using wrr_bounded_cong [OF mb, of h] bd0 by simp
    have ne: "?es \<noteq> []" using l False by auto
    have s1: "wrr_sum w = 0"
      using inv wrr_sum_healthy [OF H] by (simp add: wrr_inv_def wrr_sum_def)
    have re: "raise_entry h' = raise_entry h" by (rule wrr_heap_cong(2) [OF hl hw])
    have se: "wrr_select h' ?es = wrr_select h ?es" by (rule wrr_heap_cong(1) [OF hl hw])
    have bk: "\<And>i. i < length bs \<Longrightarrow> backend (?es ! i) = bs ! i"
      using mbs l by (metis nth_map)
    define tot where "tot = sum_list (map (\<lambda>b. Weight (h' b)) bs)"
    have td: "tot = sum_list (map (\<lambda>e. Weight (h (backend e))) ?es)"
      unfolding tot_def hw mbs [symmetric] by (simp add: o_def)
    from wrr_zero_sum_step [OF H ne bd inv td] obtain best where
      bl: "best < length ?es"
      and tot: "sint tot = wrr_total h ?es"
      and r1: "\<forall>i<length ?es. sint (currentWeight (map (raise_entry h) ?es ! i))
                 = sint (currentWeight (?es ! i)) + sint (Weight (h (backend (?es ! i))))"
      and r2: "(\<Sum>e\<leftarrow>map (raise_entry h) ?es. sint (currentWeight e)) = wrr_total h ?es"
      and sel: "wrr_select h ?es =
             Some (best, (map (raise_entry h) ?es)
                     [best := (map (raise_entry h) ?es ! best)
                        \<lparr>currentWeight := currentWeight (map (raise_entry h) ?es ! best) - tot\<rparr>])"
      and sub: "sint (currentWeight (map (raise_entry h) ?es ! best) - tot)
             = sint (currentWeight (map (raise_entry h) ?es ! best)) - wrr_total h ?es"
      and inv': "wrr_inv h ((map (raise_entry h) ?es)
                     [best := (map (raise_entry h) ?es ! best)
                        \<lparr>currentWeight := currentWeight (map (raise_entry h) ?es ! best) - tot\<rparr>])"
      by blast
    let ?es' = "(map (raise_entry h) ?es)
                     [best := (map (raise_entry h) ?es ! best)
                        \<lparr>currentWeight := currentWeight (map (raise_entry h) ?es ! best) - tot\<rparr>]"
    have nx: "WeightedRoundRobin_Next w h' =
        (Inr (bs ! best), w\<lparr>entries := ?es'\<rparr>, IncConns h' (bs ! best))"
      unfolding WeightedRoundRobin_Next_def se sel using bl l bk [of best]
      by (simp add: Let_def)
    have mb': "map backend ?es' = map backend ?es"
      using bl by (intro nth_equalityI) (simp_all add: nth_list_update)
    have H': "wrr_healthy h ?es' = [0..<length ?es']"
      using wrr_healthy_cong [OF mb', of h] H by simp
    have s2: "wrr_sum (fst (snd (WeightedRoundRobin_Next w h'))) = 0"
      unfolding nx using inv' wrr_sum_healthy [OF H'] by (simp add: wrr_inv_def wrr_sum_def)
    have c1: "sint tot = ?T" using tot T by simp
    have c2: "\<forall>i<length bs.
                    sint (currentWeight (map (raise_entry h') ?es ! i))
                      = sint (currentWeight (?es ! i)) + sint (Weight (h (bs ! i)))"
      unfolding re using r1 l bk by simp
    have c3: "(\<Sum>e\<leftarrow>map (raise_entry h') ?es. sint (currentWeight e)) = ?T"
      unfolding re using r2 T by simp
    have c4: "sint (currentWeight (map (raise_entry h') ?es ! best) - tot)
                    = sint (currentWeight (map (raise_entry h') ?es ! best)) - ?T"
      unfolding re using sub T by simp
    have c5: "WeightedRoundRobin_Next w h' =
                  (Inr (bs ! best),
                   w\<lparr>entries := (map (raise_entry h') ?es)
                      [best := (map (raise_entry h') ?es ! best)
                         \<lparr>currentWeight :=
                            currentWeight (map (raise_entry h') ?es ! best) - tot\<rparr>]\<rparr>,
                   IncConns h' (bs ! best))"
      unfolding re by (rule nx)
    have bl': "best < length bs" using bl l by simp
    from bl' tot_def c1 c2 c3 c5 c4
    have "\<exists>best<length bs. \<exists>tot.
                tot = sum_list (map (\<lambda>b. Weight (h' b)) bs)
              \<and> sint tot = ?T
              \<and> (\<forall>i<length bs.
                    sint (currentWeight (map (raise_entry h') ?es ! i))
                      = sint (currentWeight (?es ! i)) + sint (Weight (h (bs ! i))))
              \<and> (\<Sum>e\<leftarrow>map (raise_entry h') ?es. sint (currentWeight e)) = ?T
              \<and> WeightedRoundRobin_Next w h' =
                  (Inr (bs ! best),
                   w\<lparr>entries := (map (raise_entry h') ?es)
                      [best := (map (raise_entry h') ?es ! best)
                         \<lparr>currentWeight :=
                            currentWeight (map (raise_entry h') ?es ! best) - tot\<rparr>]\<rparr>,
                   IncConns h' (bs ! best))
              \<and> sint (currentWeight (map (raise_entry h') ?es ! best) - tot)
                    = sint (currentWeight (map (raise_entry h') ?es ! best)) - ?T"
      by blast
    with z0 s1 s2 show ?thesis by blast
  qed
qed

theorem wrr_zero_sum_witness:
  "wrr_sum (fst (snd (wrr_run 3 (NewWeightedRoundRobin [0, 1]) weighted_heap))) = 0
   \<and> wrr_sum (fst (snd (WeightedRoundRobin_Next
          (fst (snd (wrr_run 3 (NewWeightedRoundRobin [0, 1]) weighted_heap)))
          (snd (snd (wrr_run 3 (NewWeightedRoundRobin [0, 1]) weighted_heap)))))) = 0"
proof -
  have ah: "\<forall>b\<in>set [0, 1]. IsHealthy weighted_heap b"
    by (simp add: weighted_heap_def heap_of_def example_backend_def IsHealthy_def)
  have w1: "\<forall>b\<in>set [0, 1]. 1 \<le> sint (Weight (weighted_heap b))"
    using weighted_heap_facts(4,5) by simp
  have nov: "int (length [0, 1 :: nat]) * (\<Sum>b\<leftarrow>[0, 1]. sint (Weight (weighted_heap b))) < 2 ^ 63"
    using weighted_heap_facts(4,5) by simp
  have r: "wrr_run 3 (NewWeightedRoundRobin [0, 1]) weighted_heap =
      (fst (wrr_run 3 (NewWeightedRoundRobin [0, 1]) weighted_heap),
       fst (snd (wrr_run 3 (NewWeightedRoundRobin [0, 1]) weighted_heap)),
       snd (snd (wrr_run 3 (NewWeightedRoundRobin [0, 1]) weighted_heap)))"
    by simp
  from wrr_zero_sum [OF ah w1 nov r] show ?thesis by blast
qed

end
